theory Spec2Isabelle
  imports Main "HOL-Library.Char_ord" "HOL-Library.List_Lexorder" "HOL-Library.Multiset"
begin

section \<open>Graph model (datamodel.js)\<close>

text \<open>
  Ids and weights are JavaScript strings. An edge refers to its endpoints by id.
  The constructor \<^verbatim>\<open>Edge(weight, startNode, endNode)\<close> sets
  \<^verbatim>\<open>this.id = startNode+endNode\<close>; the graph builder may overwrite the id of a
  parallel edge afterwards, so the id is a field of its own.
\<close>

record edge =
  weight :: string
  startNode :: string
  endNode :: string
  edge_id :: string

record 'v node =
  node_id :: string
  node_value :: 'v
  outgoingEdges :: "edge list"

definition Edge :: "string \<Rightarrow> string \<Rightarrow> string \<Rightarrow> edge" where
  "Edge w s e = \<lparr>weight = w, startNode = s, endNode = e, edge_id = s @ e\<rparr>"

definition Node :: "string \<Rightarrow> 'v \<Rightarrow> 'v node" where
  "Node i v = \<lparr>node_id = i, node_value = v, outgoingEdges = []\<rparr>"

text \<open>\<^verbatim>\<open>Edge.prototype.copy\<close>: a new edge built by the constructor from the three
  constructor arguments; the id of the original is not consulted.\<close>

definition Edge_copy :: "edge \<Rightarrow> edge" where
  "Edge_copy e = Edge (weight e) (startNode e) (endNode e)"

text \<open>\<^verbatim>\<open>Node.prototype.copy\<close>: a new node with the same id and value, onto whose
  (initially empty) edge array a copy of every outgoing edge is pushed in order.\<close>

definition Node_copy :: "'v node \<Rightarrow> 'v node" where
  "Node_copy n =
     fold (\<lambda>e c. c\<lparr>outgoingEdges := outgoingEdges c @ [Edge_copy e]\<rparr>)
       (outgoingEdges n) (Node (node_id n) (node_value n))"

section \<open>The store of node objects\<close>

text \<open>
  Node objects are compared by reference (\<^verbatim>\<open>start === end\<close>, \<^verbatim>\<open>currPath.includes(start)\<close>,
  \<^verbatim>\<open>nodesToSubtract.includes(n)\<close>) and the copies made for a residual subgraph are mutated
  in place, so nodes live in a store: a reference is an index into the list of all node
  objects allocated so far, and \<^verbatim>\<open>new Node\<close> appends. A graph (\<^verbatim>\<open>nodes\<close>) is an array of
  references; a reference held by the program always denotes an allocated object. Edge arrays and edges are kept by value inside their node: no edge array or
  edge object is shared between two nodes (\<open>Node_copy\<close> builds new ones), no edge field is
  assigned to, and edges are never compared by reference.
  \<^verbatim>\<open>undefined\<close> in a position where a node is expected is \<open>None\<close>.
\<close>

type_synonym addr = nat
type_synonym 'v heap = "'v node list"

datatype error = TypeError

text \<open>\<^verbatim>\<open>nodes.find(x => x.id === i)\<close>\<close>

definition find_node :: "'v heap \<Rightarrow> addr list \<Rightarrow> string \<Rightarrow> addr option" where
  "find_node h nodes i = find (\<lambda>x. node_id (h ! x) = i) nodes"

section \<open>Cycle enumeration (findAllLoops, dfsFindLoops)\<close>

text \<open>
  The three arrays \<^verbatim>\<open>visited\<close>, \<^verbatim>\<open>stack\<close> and \<^verbatim>\<open>cycles\<close> are created once by
  \<^verbatim>\<open>findAllLoops\<close> and shared by every call of \<^verbatim>\<open>dfsFindLoops\<close>; they are the state that is
  passed through. \<^verbatim>\<open>pop\<close> on an empty array leaves it empty, as \<open>butlast\<close> does.
  \<open>dfsFindLoops_for\<close> is the \<^verbatim>\<open>for\<close> loop over the remaining outgoing edges.
\<close>

record dfs_state =
  visited :: "string list"
  stack :: "edge list"
  cycles :: "edge list list"

function dfsFindLoops ::
    "'v heap \<Rightarrow> addr list \<Rightarrow> addr \<Rightarrow> string \<Rightarrow> dfs_state \<Rightarrow> dfs_state"
  and dfsFindLoops_for ::
    "'v heap \<Rightarrow> addr list \<Rightarrow> string \<Rightarrow> edge list \<Rightarrow> dfs_state \<Rightarrow> dfs_state"
where
  "dfsFindLoops h nodes cur startId st =
     (let st1 = st\<lparr>visited := visited st @ [node_id (h ! cur)]\<rparr>;
          st2 = dfsFindLoops_for h nodes startId (outgoingEdges (h ! cur)) st1
      in if node_id (h ! cur) \<noteq> startId
         then st2\<lparr>stack := butlast (stack st2), visited := butlast (visited st2)\<rparr>
         else st2)"
| "dfsFindLoops_for h nodes startId [] st = st"
| "dfsFindLoops_for h nodes startId (e # es) st =
     (case find_node h nodes (endNode e) of
        None \<Rightarrow> dfsFindLoops_for h nodes startId es st
      | Some v \<Rightarrow>
          if node_id (h ! v) = startId
          then dfsFindLoops_for h nodes startId es (st\<lparr>cycles := cycles st @ [stack st @ [e]]\<rparr>)
          else if node_id (h ! v) \<notin> set (visited st)
          then dfsFindLoops_for h nodes startId es
                 (dfsFindLoops h nodes v startId (st\<lparr>stack := stack st @ [e]\<rparr>))
          else dfsFindLoops_for h nodes startId es st)"
  by pat_completeness auto

text \<open>The loop resumes after a recursive call with the state that call returns, so
  termination needs to know that a call leaves the visited list as it was.\<close>

termination
proof (relation "inv_image (less_than <*lex*> less_than)
    (\<lambda>x. case x of
       Inl (h, nodes, cur, startId, st) \<Rightarrow>
         (card ((\<lambda>a. node_id (h ! a)) ` set nodes - set (visited st @ [node_id (h ! cur)])),
          Suc (length (outgoingEdges (h ! cur))))
     | Inr (h, nodes, startId, es, st) \<Rightarrow>
         (card ((\<lambda>a. node_id (h ! a)) ` set nodes - set (visited st)), length es))", goal_cases)
  case 1
  show ?case by (intro wf_inv_image wf_lex_prod wf_less_than)
next
  case (2 h nodes cur startId st)
  then show ?case by simp
next
  case (3 h nodes startId e es st)
  then show ?case by simp
next
  case (4 h nodes startId e es st v)
  then show ?case by simp
next
  case (5 h nodes startId e es st v)
  let ?ids = "(\<lambda>a. node_id (h ! a)) ` set nodes"
  from 5 have "v \<in> set nodes"
    by (auto simp: find_node_def find_Some_iff)
  then have "node_id (h ! v) \<in> ?ids - set (visited st)"
    using 5 by auto
  then have "card (?ids - set (visited st) - {node_id (h ! v)}) < card (?ids - set (visited st))"
    by (intro card_Diff1_less) auto
  moreover have "?ids - set (visited st @ [node_id (h ! v)])
                   = ?ids - set (visited st) - {node_id (h ! v)}"
    by auto
  ultimately show ?case by simp
next
  case (6 h nodes startId e es st v)
  have visited_dom:
    "dfsFindLoops_dfsFindLoops_for_dom (Inl (h', nodes', cur', startId', st')) \<Longrightarrow>
       visited (dfsFindLoops h' nodes' cur' startId' st')
         = (if node_id (h' ! cur') = startId' then visited st' @ [startId'] else visited st')"
    "dfsFindLoops_dfsFindLoops_for_dom (Inr (h', nodes', startId', es', st')) \<Longrightarrow>
       visited (dfsFindLoops_for h' nodes' startId' es' st') = visited st'"
    for h' :: "'v heap" and nodes' cur' startId' st' es'
  proof (induction h' nodes' cur' startId' st' and h' nodes' startId' es' st'
         rule: dfsFindLoops_dfsFindLoops_for.pinduct)
    case (1 h nodes cur startId st)
    then show ?case by (auto simp add: dfsFindLoops.psimps Let_def)
  next
    case (2 h nodes startId st)
    then show ?case by (simp add: dfsFindLoops_for.psimps)
  next
    case (3 h nodes startId e es st)
    then show ?case by (simp add: dfsFindLoops_for.psimps split: option.splits)
  qed
  from 6 show ?case by (simp add: visited_dom(1))
next
  case (7 h nodes startId e es st v)
  then show ?case by simp
qed

text \<open>\<^verbatim>\<open>findAllLoops\<close>: one search per node of the graph, in order, all on the same three
  arrays. \<open>findAllLoops_run\<close> is the state after the \<^verbatim>\<open>forEach\<close>; the function returns
  its \<^verbatim>\<open>cycles\<close>.\<close>

definition findAllLoops_run :: "'v heap \<Rightarrow> addr list \<Rightarrow> dfs_state" where
  "findAllLoops_run h nodes =
     fold (\<lambda>node st. dfsFindLoops h nodes node (node_id (h ! node)) st) nodes
       \<lparr>visited = [], stack = [], cycles = []\<rparr>"

definition findAllLoops :: "'v heap \<Rightarrow> addr list \<Rightarrow> edge list list" where
  "findAllLoops h nodes = cycles (findAllLoops_run h nodes)"

section \<open>Non-touching loop sets (findNonTouching)\<close>

text \<open>
  A JavaScript \<^verbatim>\<open>Map\<close> keeps its entries in insertion order: an association list with
  \<^verbatim>\<open>set\<close> replacing in place or appending, \<^verbatim>\<open>get\<close> returning \<^verbatim>\<open>undefined\<close> (\<open>None\<close>)
  for a missing key, and \<^verbatim>\<open>delete\<close> removing the entry.
\<close>

type_synonym 'x js_map = "(nat \<times> 'x) list"

fun Map_set :: "'x js_map \<Rightarrow> nat \<Rightarrow> 'x \<Rightarrow> 'x js_map" where
  "Map_set [] k v = [(k, v)]"
| "Map_set ((k', v') # m) k v = (if k' = k then (k, v) # m else (k', v') # Map_set m k v)"

definition Map_get :: "'x js_map \<Rightarrow> nat \<Rightarrow> 'x option" where
  "Map_get m k = map_of m k"

definition Map_delete :: "'x js_map \<Rightarrow> nat \<Rightarrow> 'x js_map" where
  "Map_delete m k = filter (\<lambda>kv. fst kv \<noteq> k) m"

text \<open>\<^verbatim>\<open>Array.prototype.toString\<close> on an array of strings joins them with commas;
  \<^verbatim>\<open>sort()\<close> without a comparator orders strings by their code units, which is the
  lexicographic order on character lists.\<close>

fun toString :: "string list \<Rightarrow> string" where
  "toString [] = []"
| "toString [x] = x"
| "toString (x # y # ys) = x @ '','' @ toString (y # ys)"

record nt_state =
  nonTouchingLoops :: "edge list list js_map"
  existingGains :: "string list"

text \<open>The body of the innermost loop, for one \<^verbatim>\<open>currLoop\<close> of the previous level and one
  \<^verbatim>\<open>remainingLoop\<close> of \<^verbatim>\<open>allLoops\<close>; it works on \<^verbatim>\<open>existingGains\<close> and on the array
  \<^verbatim>\<open>ithNonTouch\<close> of the level under construction.\<close>

definition nonTouching_body ::
    "edge list \<Rightarrow> edge list \<Rightarrow> string list \<times> edge list list \<Rightarrow> string list \<times> edge list list" where
  "nonTouching_body currLoop remainingLoop acc =
     (case acc of (existing, ithNonTouch) \<Rightarrow>
        let currNodes = map endNode currLoop;
            concatLoops = remainingLoop @ currLoop;
            loopGain = toString (sort (map edge_id concatLoops))
        in if loopGain \<in> set existing then (existing, ithNonTouch)
           else let remainingNodes = map endNode remainingLoop;
                    touching = list_ex (\<lambda>node. node \<in> set currNodes) remainingNodes
                in if \<not> touching then (existing @ [loopGain], ithNonTouch @ [concatLoops])
                   else (existing, ithNonTouch))"

text \<open>The two inner loops: \<^verbatim>\<open>j\<close> over the previous level, \<^verbatim>\<open>innerIndex\<close> over all loops.\<close>

definition nonTouching_level ::
    "edge list list \<Rightarrow> edge list list \<Rightarrow> string list \<Rightarrow> string list \<times> edge list list" where
  "nonTouching_level allLoops prevSet existing =
     fold (\<lambda>currLoop acc. fold (nonTouching_body currLoop) allLoops acc) prevSet (existing, [])"

text \<open>The outer loop \<^verbatim>\<open>for (i = 2; i <= numLoops; i++)\<close>. \<^verbatim>\<open>prevSet.length\<close> raises a
  TypeError when level \<^verbatim>\<open>i - 1\<close> is missing from the map. The pushes onto \<^verbatim>\<open>ithNonTouch\<close>
  act on the array stored under key \<^verbatim>\<open>i\<close>, which is written back as a whole here.\<close>

function findNonTouching_for :: "edge list list \<Rightarrow> nat \<Rightarrow> nt_state \<Rightarrow> error + nt_state" where
  "findNonTouching_for allLoops i st =
     (if i \<le> length allLoops then
        (case Map_get (nonTouchingLoops st) (i - 1) of
           None \<Rightarrow> Inl TypeError
         | Some prevSet \<Rightarrow>
             (case nonTouching_level allLoops prevSet (existingGains st) of
                (existing, ithNonTouch) \<Rightarrow>
                  let m = Map_set (Map_set (nonTouchingLoops st) i []) i ithNonTouch
                  in if length ithNonTouch = 0
                     then Inr \<lparr>nonTouchingLoops = Map_delete m i, existingGains = existing\<rparr>
                     else findNonTouching_for allLoops (i + 1)
                            \<lparr>nonTouchingLoops = m, existingGains = existing\<rparr>))
      else Inr st)"
  by pat_completeness auto
termination
  by (relation "measure (\<lambda>(allLoops, i, st). Suc (length allLoops) - i)") auto

declare findNonTouching_for.simps [simp del]

definition findNonTouching :: "edge list list \<Rightarrow> error + edge list list js_map" where
  "findNonTouching allLoops =
     (case findNonTouching_for allLoops 2
             \<lparr>nonTouchingLoops = Map_set [] 1 allLoops, existingGains = []\<rparr> of
        Inl err \<Rightarrow> Inl err
      | Inr st \<Rightarrow> Inr (Map_delete (nonTouchingLoops st) 1))"

section \<open>Denominator (calculateDenominator, calculateLoopGain)\<close>

text \<open>
  Modelled from the spec: the symbolic expression engine (\<^verbatim>\<open>RWalgebra.js\<close>) is not part of
  the sources. Its expressions form a commutative ring \<open>'a\<close> with \<^verbatim>\<open>add\<close>, \<^verbatim>\<open>subtract\<close>
  and \<^verbatim>\<open>multiply\<close> as the ring operations, \<^verbatim>\<open>new Expression(n)\<close> as the constant \<open>n\<close> and
  \<^verbatim>\<open>new Expression()\<close> as the empty sum; \<open>val w\<close> is the expression the engine reads from the
  weight string \<open>w\<close> (\<^verbatim>\<open>multiply\<close> is handed the weight in parentheses).
\<close>

definition calculateLoopGain :: "(string \<Rightarrow> 'a::comm_ring_1) \<Rightarrow> edge list \<Rightarrow> 'a" where
  "calculateLoopGain val edges = fold (\<lambda>e ex. ex * val (weight e)) edges 1"

text \<open>The second \<^verbatim>\<open>forEach\<close> runs over a \<^verbatim>\<open>Map\<close>: its callback receives the value and the
  key, so \<^verbatim>\<open>index\<close> is the level \<open>k\<close>.\<close>

definition calculateDenominator ::
    "(string \<Rightarrow> 'a::comm_ring_1) \<Rightarrow> edge list list \<Rightarrow> edge list list js_map \<Rightarrow> 'a" where
  "calculateDenominator val allLoops nonTouching =
     (let denom = fold (\<lambda>loop denom. denom - calculateLoopGain val loop) allLoops (0 + 1)
      in fold (\<lambda>(index, loops) denom.
                 let loopGain = fold (\<lambda>loop loopGain. loopGain + calculateLoopGain val loop) loops 0
                 in if index mod 2 = 0 then denom + loopGain else denom - loopGain)
              nonTouching denom)"

section \<open>Forward paths (findForwardPaths)\<close>

text \<open>
  \<^verbatim>\<open>start\<close> and \<^verbatim>\<open>end\<close> are node references or \<^verbatim>\<open>undefined\<close>; \<^verbatim>\<open>nextNode\<close> is
  \<^verbatim>\<open>undefined\<close> when the edge's destination is not in the graph, and reading
  \<^verbatim>\<open>start.outgoingEdges\<close> of \<^verbatim>\<open>undefined\<close> raises a TypeError (after the two tests
  before it, in the order of the source). \<^verbatim>\<open>paths\<close> is the one array shared by all calls.
  Every call receives its own array as \<^verbatim>\<open>currPath\<close> (the caller copies before calling and
  does not look at the copy again), so it is passed by value.
  \<open>findForwardPaths_for\<close> is the loop over the outgoing edges; an exception ends it.
\<close>

function findForwardPaths ::
    "'v heap \<Rightarrow> addr option \<Rightarrow> addr option \<Rightarrow> addr list \<Rightarrow> addr option list list
       \<Rightarrow> addr option list \<Rightarrow> error + addr option list list"
  and findForwardPaths_for ::
    "'v heap \<Rightarrow> addr option list \<Rightarrow> addr option \<Rightarrow> addr list \<Rightarrow> edge list
       \<Rightarrow> addr option list list \<Rightarrow> error + addr option list list"
where
  "findForwardPaths h start endn nodes paths currPath =
     (if start = endn then Inr (paths @ [currPath @ [start]])
      else if start \<in> set currPath then Inr paths
      else (case start of
              None \<Rightarrow> Inl TypeError
            | Some s \<Rightarrow>
                if length (outgoingEdges (h ! s)) < 1 then Inr paths
                else findForwardPaths_for h (currPath @ [start]) endn nodes
                       (outgoingEdges (h ! s)) paths))"
| "findForwardPaths_for h currPath endn nodes [] paths = Inr paths"
| "findForwardPaths_for h currPath endn nodes (e # es) paths =
     (case findForwardPaths h (find_node h nodes (endNode e)) endn nodes paths currPath of
        Inl err \<Rightarrow> Inl err
      | Inr paths' \<Rightarrow> findForwardPaths_for h currPath endn nodes es paths')"
  by pat_completeness auto
termination
proof (relation "inv_image (less_than <*lex*> less_than)
    (\<lambda>x. case x of
       Inl (h, start, endn, nodes, paths, currPath) \<Rightarrow>
         (2 * card (insert None (Some ` set nodes) - set currPath)
            + (if start \<in> insert None (Some ` set nodes) then 0 else 2), 0)
     | Inr (h, currPath, endn, nodes, es, paths) \<Rightarrow>
         (2 * card (insert None (Some ` set nodes) - set currPath) + 1, length es))", goal_cases)
  case 1
  show ?case by (intro wf_inv_image wf_lex_prod wf_less_than)
next
  case (2 h start endn nodes paths currPath s)
  let ?U = "insert None (Some ` set nodes)"
  show ?case
  proof (cases "start \<in> ?U")
    case True
    with 2 have "start \<in> ?U - set currPath" by simp
    then have "card (?U - set currPath - {start}) < card (?U - set currPath)"
      by (intro card_Diff1_less) auto
    moreover have "?U - set (currPath @ [start]) = ?U - set currPath - {start}"
      by auto
    ultimately show ?thesis using True by simp
  next
    case False
    then have "?U - set (currPath @ [start]) = ?U - set currPath" by auto
    then show ?thesis using False by simp
  qed
next
  case (3 h currPath endn nodes e es paths)
  have "find_node h nodes (endNode e) \<in> insert None (Some ` set nodes)"
  proof (cases "find_node h nodes (endNode e)")
    case None
    then show ?thesis by simp
  next
    case (Some v)
    then have "find (\<lambda>x. node_id (h ! x) = endNode e) nodes = Some v"
      by (simp add: find_node_def)
    then have "v \<in> set nodes"
      by (auto simp: find_Some_iff)
    with Some show ?thesis by simp
  qed
  then show ?case by simp
next
  case (4 h currPath endn nodes e es paths)
  then show ?case by simp
qed

section \<open>Forward-path gains (getForwardPathsLoopgains, extractPathEdges)\<close>

text \<open>\<^verbatim>\<open>pn.outgoingEdges.find(x => x.endNode === pathNodes[i+1].id)\<close>: the callback reads
  \<^verbatim>\<open>.id\<close> of the next path node each time it is called, which raises when that entry is
  \<^verbatim>\<open>undefined\<close>; with no edge to test the callback is not called and the result is
  \<^verbatim>\<open>undefined\<close>.\<close>

fun find_edge_to :: "'v heap \<Rightarrow> edge list \<Rightarrow> addr option \<Rightarrow> error + edge option" where
  "find_edge_to h [] nxt = Inr None"
| "find_edge_to h (x # xs) nxt =
     (case nxt of
        None \<Rightarrow> Inl TypeError
      | Some n \<Rightarrow> if endNode x = node_id (h ! n) then Inr (Some x) else find_edge_to h xs nxt)"

text \<open>For every path node but the last, the first edge leading to the next path node.\<close>

fun extractPathEdges :: "'v heap \<Rightarrow> addr option list \<Rightarrow> error + edge option list" where
  "extractPathEdges h [] = Inr []"
| "extractPathEdges h [pn] = Inr []"
| "extractPathEdges h (pn # nxt # rest) =
     (case pn of
        None \<Rightarrow> Inl TypeError
      | Some p \<Rightarrow>
          (case find_edge_to h (outgoingEdges (h ! p)) nxt of
             Inl err \<Rightarrow> Inl err
           | Inr pe \<Rightarrow>
               (case extractPathEdges h (nxt # rest) of
                  Inl err \<Rightarrow> Inl err
                | Inr pathEdges \<Rightarrow> Inr (pe # pathEdges))))"

text \<open>\<^verbatim>\<open>calculateLoopGain\<close> on an array that may hold \<^verbatim>\<open>undefined\<close>: \<^verbatim>\<open>e.weight\<close> raises
  there.\<close>

fun calculateLoopGain_undef ::
    "(string \<Rightarrow> 'a::comm_ring_1) \<Rightarrow> edge option list \<Rightarrow> 'a \<Rightarrow> error + 'a" where
  "calculateLoopGain_undef val [] ex = Inr ex"
| "calculateLoopGain_undef val (None # es) ex = Inl TypeError"
| "calculateLoopGain_undef val (Some e # es) ex = calculateLoopGain_undef val es (ex * val (weight e))"

fun getForwardPathsLoopgains ::
    "(string \<Rightarrow> 'a::comm_ring_1) \<Rightarrow> 'v heap \<Rightarrow> addr option list list \<Rightarrow> error + 'a list" where
  "getForwardPathsLoopgains val h [] = Inr []"
| "getForwardPathsLoopgains val h (p # ps) =
     (case extractPathEdges h p of
        Inl err \<Rightarrow> Inl err
      | Inr forwardEdges \<Rightarrow>
          (case calculateLoopGain_undef val forwardEdges 1 of
             Inl err \<Rightarrow> Inl err
           | Inr flg \<Rightarrow>
               (case getForwardPathsLoopgains val h ps of
                  Inl err \<Rightarrow> Inl err
                | Inr forwardLoopgains \<Rightarrow> Inr (flg # forwardLoopgains))))"

section \<open>Residual subgraph (subtractNodes)\<close>

text \<open>First loop: \<^verbatim>\<open>allnodes_copy.push(n.copy())\<close> for every node of the graph. Each copy is
  a new object in the store.\<close>

definition copy_nodes :: "'v heap \<Rightarrow> addr list \<Rightarrow> 'v heap \<times> addr list" where
  "copy_nodes h originalNodes =
     fold (\<lambda>n (h', allnodes_copy). (h' @ [Node_copy (h' ! n)], allnodes_copy @ [length h']))
       originalNodes (h, [])"

text \<open>\<^verbatim>\<open>n.outgoingEdges.findIndex(e => e.endNode === nts.id)\<close>; \<open>None\<close> is the result -1.
  As with \<open>find_edge_to\<close>, \<^verbatim>\<open>nts.id\<close> is read only when there is an edge to test.\<close>

fun findIndex_endNode :: "'v heap \<Rightarrow> edge list \<Rightarrow> addr option \<Rightarrow> error + nat option" where
  "findIndex_endNode h [] nts = Inr None"
| "findIndex_endNode h (e # es) nts =
     (case nts of
        None \<Rightarrow> Inl TypeError
      | Some t \<Rightarrow>
          if endNode e = node_id (h ! t) then Inr (Some 0)
          else (case findIndex_endNode h es nts of
                  Inl err \<Rightarrow> Inl err
                | Inr None \<Rightarrow> Inr None
                | Inr (Some i) \<Rightarrow> Inr (Some (Suc i))))"

text \<open>\<^verbatim>\<open>xs.splice(i, 1)\<close>\<close>

definition splice1 :: "nat \<Rightarrow> 'x list \<Rightarrow> 'x list" where
  "splice1 i xs = take i xs @ drop (Suc i) xs"

text \<open>The inner \<^verbatim>\<open>nodesToSubtract.forEach\<close> for the copy \<open>n\<close>: for each node to subtract,
  the first edge of \<open>n\<close> that leads to it is removed from the edge array of \<open>n\<close>.\<close>

fun subtractNodes_prune :: "'v heap \<Rightarrow> addr \<Rightarrow> addr option list \<Rightarrow> 'v heap \<times> (error + unit)" where
  "subtractNodes_prune h n [] = (h, Inr ())"
| "subtractNodes_prune h n (nts # rest) =
     (case findIndex_endNode h (outgoingEdges (h ! n)) nts of
        Inl err \<Rightarrow> (h, Inl err)
      | Inr None \<Rightarrow> subtractNodes_prune h n rest
      | Inr (Some edge_i) \<Rightarrow>
          subtractNodes_prune
            (h[n := (h ! n)\<lparr>outgoingEdges := splice1 edge_i (outgoingEdges (h ! n))\<rparr>]) n rest)"

text \<open>The second loop, over \<^verbatim>\<open>allnodes_copy\<close>. \<^verbatim>\<open>nodesToSubtract.includes(n)\<close> compares
  references.\<close>

fun subtractNodes_for ::
    "'v heap \<Rightarrow> addr option list \<Rightarrow> addr list \<Rightarrow> addr list \<Rightarrow> 'v heap \<times> (error + addr list)" where
  "subtractNodes_for h nodesToSubtract [] subgraph = (h, Inr subgraph)"
| "subtractNodes_for h nodesToSubtract (n # ns) subgraph =
     (if Some n \<notin> set nodesToSubtract \<and> length (outgoingEdges (h ! n)) > 0
      then (case subtractNodes_prune h n nodesToSubtract of
              (h', Inl err) \<Rightarrow> (h', Inl err)
            | (h', Inr u) \<Rightarrow> subtractNodes_for h' nodesToSubtract ns (subgraph @ [n]))
      else subtractNodes_for h nodesToSubtract ns subgraph)"

definition subtractNodes ::
    "'v heap \<Rightarrow> addr list \<Rightarrow> addr option list \<Rightarrow> 'v heap \<times> (error + addr list)" where
  "subtractNodes h originalNodes nodesToSubtract =
     (case copy_nodes h originalNodes of
        (h', allnodes_copy) \<Rightarrow> subtractNodes_for h' nodesToSubtract allnodes_copy [])"

section \<open>Numerator (calculateNumerator)\<close>

text \<open>Step 2 of \<^verbatim>\<open>calculateNumerator\<close>: for every path the residual subgraph, its loops, its
  non-touching sets and its denominator, pushed onto \<^verbatim>\<open>delta_k\<close>.\<close>

fun calculateNumerator_deltas ::
    "(string \<Rightarrow> 'a::comm_ring_1) \<Rightarrow> 'v heap \<Rightarrow> addr list \<Rightarrow> addr option list list \<Rightarrow> 'a list
       \<Rightarrow> 'v heap \<times> (error + 'a list)" where
  "calculateNumerator_deltas val h nodes [] delta_k = (h, Inr delta_k)"
| "calculateNumerator_deltas val h nodes (p # ps) delta_k =
     (case subtractNodes h nodes p of
        (h', Inl err) \<Rightarrow> (h', Inl err)
      | (h', Inr subgraph) \<Rightarrow>
          let allLoops = findAllLoops h' subgraph
          in (case findNonTouching allLoops of
                Inl err \<Rightarrow> (h', Inl err)
              | Inr nonTouching \<Rightarrow>
                  calculateNumerator_deltas val h' nodes ps
                    (delta_k @ [calculateDenominator val allLoops nonTouching])))"

text \<open>The result is the store after the call together with either the exception raised or
  the value returned; \<open>None\<close> is the \<^verbatim>\<open>undefined\<close> returned when the sanity check on the two
  lengths fails.\<close>

definition calculateNumerator ::
    "(string \<Rightarrow> 'a::comm_ring_1) \<Rightarrow> 'v heap \<Rightarrow> string \<Rightarrow> string \<Rightarrow> addr list
       \<Rightarrow> 'v heap \<times> (error + 'a option)" where
  "calculateNumerator val h start endn nodes =
     (let start' = find_node h nodes start;
          end' = find_node h nodes endn
      in case findForwardPaths h start' end' nodes [] [] of
           Inl err \<Rightarrow> (h, Inl err)
         | Inr paths \<Rightarrow>
             (case getForwardPathsLoopgains val h paths of
                Inl err \<Rightarrow> (h, Inl err)
              | Inr forwardLoopgains \<Rightarrow>
                  (case calculateNumerator_deltas val h nodes paths [] of
                     (h', Inl err) \<Rightarrow> (h', Inl err)
                   | (h', Inr delta_k) \<Rightarrow>
                       if length forwardLoopgains = length delta_k
                       then (h', Inr (Some (fold (\<lambda>i numer. numer + forwardLoopgains ! i * delta_k ! i)
                                              [0..<length forwardLoopgains] 0)))
                       else (h', Inr None))))"

section \<open>Example graphs\<close>

text \<open>Stores of nodes without values; node \<open>i\<close> of a graph is at address \<open>i\<close>.\<close>

text \<open>The two-node cycle \<open>a \<rightarrow> b \<rightarrow> a\<close>.\<close>

definition two_cycle :: "unit heap" where
  "two_cycle = [\<lparr>node_id = ''a'', node_value = (), outgoingEdges = [Edge ''g'' ''a'' ''b'']\<rparr>,
                \<lparr>node_id = ''b'', node_value = (), outgoingEdges = [Edge ''h'' ''b'' ''a'']\<rparr>]"

text \<open>Nodes 1, 2, 3 with the edge \<open>1 \<rightarrow> 2\<close> of weight \<open>a\<close>, the edge \<open>2 \<rightarrow> 3\<close> of weight
  \<open>b\<close> and the self-loop of weight \<open>f\<close> at node 2; \<open>es2\<close> is the edge array of node 2, whose
  order the description leaves open.\<close>

definition chain :: "edge list \<Rightarrow> unit heap" where
  "chain es2 = [\<lparr>node_id = ''1'', node_value = (), outgoingEdges = [Edge ''a'' ''1'' ''2'']\<rparr>,
                \<lparr>node_id = ''2'', node_value = (), outgoingEdges = es2\<rparr>,
                \<lparr>node_id = ''3'', node_value = (), outgoingEdges = []\<rparr>]"

text \<open>Node 1 has an edge to the missing node 9 and an edge to node 2.\<close>

definition dangling :: "unit heap" where
  "dangling = [\<lparr>node_id = ''1'', node_value = (),
                 outgoingEdges = [Edge ''x'' ''1'' ''9'', Edge ''a'' ''1'' ''2'']\<rparr>,
               \<lparr>node_id = ''2'', node_value = (), outgoingEdges = [Edge ''f'' ''2'' ''2'']\<rparr>]"

text \<open>Nodes S, P, X, E with the edges \<open>S \<rightarrow> P\<close>, \<open>P \<rightarrow> X\<close>, \<open>P \<rightarrow> E\<close> and two parallel edges
  \<open>X \<rightarrow> P\<close>, the second with the suffixed id the graph builder gives it.\<close>

definition parallel :: "unit heap" where
  "parallel =
     [\<lparr>node_id = ''S'', node_value = (), outgoingEdges = [Edge ''a'' ''S'' ''P'']\<rparr>,
      \<lparr>node_id = ''P'', node_value = (),
         outgoingEdges = [Edge ''c'' ''P'' ''X'', Edge ''b'' ''P'' ''E'']\<rparr>,
      \<lparr>node_id = ''X'', node_value = (),
         outgoingEdges = [Edge ''d'' ''X'' ''P'', (Edge ''e'' ''X'' ''P'')\<lparr>edge_id := ''XP_1''\<rparr>]\<rparr>,
      \<lparr>node_id = ''E'', node_value = (), outgoingEdges = []\<rparr>]"

text \<open>The loop \<open>a \<rightarrow> b \<rightarrow> a\<close> and, apart from it, the self-loop at \<open>c\<close>.\<close>

definition two_loops :: "unit heap" where
  "two_loops = [\<lparr>node_id = ''a'', node_value = (), outgoingEdges = [Edge ''g'' ''a'' ''b'']\<rparr>,
                \<lparr>node_id = ''b'', node_value = (), outgoingEdges = [Edge ''h'' ''b'' ''a'']\<rparr>,
                \<lparr>node_id = ''c'', node_value = (), outgoingEdges = [Edge ''k'' ''c'' ''c'']\<rparr>]"

section \<open>Predicates used in the statements and proofs\<close>

text \<open>Invariant of the outer loop at the test \<^verbatim>\<open>i <= numLoops\<close>: the map holds exactly the
  levels \<open>1, \<dots>, i - 1\<close> in this order, and every level from 2 on is non-empty.\<close>

definition levels_ok :: "nat \<Rightarrow> edge list list js_map \<Rightarrow> bool" where
  "levels_ok i m \<longleftrightarrow> map fst m = [1..<i] \<and> (\<forall>kv \<in> set m. 2 \<le> fst kv \<longrightarrow> snd kv \<noteq> [])"

text \<open>The key under which a combination is remembered in \<^verbatim>\<open>existingGains\<close>:
  \<^verbatim>\<open>concatLoops.map((edge) => edge.id).sort().toString()\<close>.\<close>

definition edge_id_key :: "edge list \<Rightarrow> string" where
  "edge_id_key concatLoops = toString (sort (map edge_id concatLoops))"

text \<open>All edges on the stack and in the recorded cycles lead to nodes of the graph.\<close>

definition edges_resolved :: "'v heap \<Rightarrow> addr list \<Rightarrow> dfs_state \<Rightarrow> bool" where
  "edges_resolved h nodes st \<longleftrightarrow>
     (\<forall>e \<in> set (stack st). find_node h nodes (endNode e) \<noteq> None)
     \<and> (\<forall>c \<in> set (cycles st). \<forall>e \<in> set c. find_node h nodes (endNode e) \<noteq> None)"

text \<open>A graph in which every edge destination is the id of a node of the graph.\<close>

definition resolves :: "'v heap \<Rightarrow> addr list \<Rightarrow> bool" where
  "resolves h nodes \<longleftrightarrow>
     (\<forall>n \<in> set nodes. \<forall>e \<in> set (outgoingEdges (h ! n)). find_node h nodes (endNode e) \<noteq> None)"

text \<open>A path all of whose entries are nodes, each with an edge to the next.\<close>

fun linked :: "'v heap \<Rightarrow> addr option list \<Rightarrow> bool" where
  "linked h [] = True"
| "linked h [x] = (x \<noteq> None)"
| "linked h (x # y # r) =
     ((\<exists>a b. x = Some a \<and> y = Some b
             \<and> (\<exists>e \<in> set (outgoingEdges (h ! a)). endNode e = node_id (h ! b)))
      \<and> linked h (y # r))"

section \<open>Properties of the graph model\<close>

lemma find_node_SomeD:
  "find_node h nodes i = Some v \<Longrightarrow> v \<in> set nodes \<and> node_id (h ! v) = i"
  by (auto simp: find_node_def find_Some_iff)

lemma Node_copy_fold_edges:
  "outgoingEdges (fold (\<lambda>e c. c\<lparr>outgoingEdges := outgoingEdges c @ [Edge_copy e]\<rparr>) es c0)
     = outgoingEdges c0 @ map Edge_copy es"
  by (induction es arbitrary: c0) simp_all

lemma Node_copy_fold_id:
  "node_id (fold (\<lambda>e c. c\<lparr>outgoingEdges := outgoingEdges c @ [Edge_copy e]\<rparr>) es c0)
     = node_id c0"
  by (induction es arbitrary: c0) simp_all

lemma Node_copy_fold_value:
  "node_value (fold (\<lambda>e c. c\<lparr>outgoingEdges := outgoingEdges c @ [Edge_copy e]\<rparr>) es c0)
     = node_value c0"
  by (induction es arbitrary: c0) simp_all

lemma Node_copy_edges: "outgoingEdges (Node_copy n) = map Edge_copy (outgoingEdges n)"
  by (simp add: Node_copy_def Node_copy_fold_edges Node_def)

lemma Node_copy_id: "node_id (Node_copy n) = node_id n"
  by (simp add: Node_copy_def Node_copy_fold_id Node_def)

lemma Node_copy_value: "node_value (Node_copy n) = node_value n"
  by (simp add: Node_copy_def Node_copy_fold_value Node_def)

lemma Edge_copy_fields:
  "weight (Edge_copy e) = weight e" "startNode (Edge_copy e) = startNode e"
  "endNode (Edge_copy e) = endNode e" "edge_id (Edge_copy e) = startNode e @ endNode e"
  by (simp_all add: Edge_copy_def Edge_def)

text \<open>The first loop of \<open>subtractNodes\<close> appends the copy of every node of the graph to
  the store.\<close>

lemma copy_nodes_fold_copies:
  "\<forall>n \<in> set ns. n < length h \<Longrightarrow>
     fold (\<lambda>n (h', allnodes_copy). (h' @ [Node_copy (h' ! n)], allnodes_copy @ [length h']))
          ns (h @ xs, cs)
       = (h @ xs @ map (\<lambda>n. Node_copy (h ! n)) ns,
          cs @ [length h + length xs ..< length h + length xs + length ns])"
proof (induction ns arbitrary: xs cs)
  case Nil
  then show ?case by simp
next
  case (Cons n ns)
  then have n: "n < length h" and ns: "\<forall>n \<in> set ns. n < length h" by simp_all
  let ?l = "length h + length xs"
  have "[?l ..< ?l + Suc (length ns)] = ?l # [Suc ?l ..< ?l + Suc (length ns)]"
    by (rule upt_conv_Cons) simp
  then have u: "[?l ..< ?l + length (n # ns)]
          = ?l # [length h + length (xs @ [Node_copy (h ! n)])
                    ..< length h + length (xs @ [Node_copy (h ! n)]) + length ns]"
    by simp
  have "(h @ xs) ! n = h ! n"
    using n by (simp add: nth_append)
  then show ?case
    using Cons.IH [OF ns, of "xs @ [Node_copy (h ! n)]" "cs @ [?l]"]
    unfolding u by simp
qed

lemma copy_nodes_copies:
  "\<forall>n \<in> set ns. n < length h \<Longrightarrow>
     copy_nodes h ns = (h @ map (\<lambda>n. Node_copy (h ! n)) ns, [length h ..< length h + length ns])"
  using copy_nodes_fold_copies [of ns h "[]" "[]"] by (simp add: copy_nodes_def)

text \<open>
  Claim C10. The copy of an edge carries the id \<open>startNode @ endNode\<close> whatever the id of
  the original was; the copy of a node carries exactly these recomputed ids on its edges, so
  a disambiguating suffix is lost, and the copies of two edges with the same endpoints have
  the same id. These are the copies \<open>subtractNodes\<close> makes of every node of the graph.
\<close>

theorem C10_copy_recomputes_edge_id:
  "edge_id (Edge_copy e) = startNode e @ endNode e
   \<and> map edge_id (outgoingEdges (Node_copy n))
       = map (\<lambda>e. startNode e @ endNode e) (outgoingEdges n)
   \<and> (startNode e1 = startNode e2 \<and> endNode e1 = endNode e2
        \<longrightarrow> edge_id (Edge_copy e1) = edge_id (Edge_copy e2))
   \<and> ((\<forall>n \<in> set ns. n < length h)
        \<longrightarrow> fst (copy_nodes h ns) = h @ map (\<lambda>n. Node_copy (h ! n)) ns)"
  by (simp add: Edge_copy_fields Node_copy_edges copy_nodes_copies)

text \<open>The two parallel edges \<open>X \<rightarrow> P\<close> with ids \<open>XP\<close> and \<open>XP_1\<close>: both copies are named
  \<open>XP\<close>, also in the copy of node X made for a residual subgraph.\<close>

theorem C10_copy_recomputes_edge_id_witness:
  "startNode (Edge ''d'' ''X'' ''P'') = startNode ((Edge ''e'' ''X'' ''P'')\<lparr>edge_id := ''XP_1''\<rparr>)
   \<and> endNode (Edge ''d'' ''X'' ''P'') = endNode ((Edge ''e'' ''X'' ''P'')\<lparr>edge_id := ''XP_1''\<rparr>)
   \<and> edge_id ((Edge ''e'' ''X'' ''P'')\<lparr>edge_id := ''XP_1''\<rparr>) = ''XP_1''
   \<and> edge_id (Edge_copy ((Edge ''e'' ''X'' ''P'')\<lparr>edge_id := ''XP_1''\<rparr>)) = ''XP''
   \<and> edge_id (Edge_copy (Edge ''d'' ''X'' ''P''))
       = edge_id (Edge_copy ((Edge ''e'' ''X'' ''P'')\<lparr>edge_id := ''XP_1''\<rparr>))
   \<and> map edge_id (outgoingEdges (Node_copy (parallel ! 2))) = [''XP'', ''XP'']
   \<and> length parallel = 4
   \<and> map edge_id (outgoingEdges (fst (copy_nodes parallel [0, 1, 2, 3]) ! 6)) = [''XP'', ''XP'']"
proof -
  let ?d = "Edge ''d'' ''X'' ''P''"
  let ?e = "(Edge ''e'' ''X'' ''P'')\<lparr>edge_id := ''XP_1''\<rparr>"
  have len: "length parallel = 4"
    by (simp add: parallel_def)
  then have valid: "\<forall>n \<in> set [0, 1, 2, 3]. n < length parallel"
    by simp
  have x: "outgoingEdges (parallel ! 2) = [?d, ?e]"
    by (simp add: parallel_def)
  note copy = C10_copy_recomputes_edge_id [of ?e "parallel ! 2" ?d ?e "[0, 1, 2, 3]" parallel]
  from copy valid have store:
    "fst (copy_nodes parallel [0, 1, 2, 3]) = parallel @ map (\<lambda>n. Node_copy (parallel ! n)) [0, 1, 2, 3]"
    by blast
  from copy have ids: "map edge_id (outgoingEdges (Node_copy (parallel ! 2)))
                         = map (\<lambda>e. startNode e @ endNode e) (outgoingEdges (parallel ! 2))"
    by blast
  from copy have same: "edge_id (Edge_copy ?d) = edge_id (Edge_copy ?e)"
    by (simp add: Edge_def)
  from copy have e: "edge_id (Edge_copy ?e) = startNode ?e @ endNode ?e"
    by blast
  have six: "fst (copy_nodes parallel [0, 1, 2, 3]) ! 6 = Node_copy (parallel ! 2)"
    unfolding store by (simp add: nth_append len)
  show ?thesis
    unfolding six using len ids same e by (simp add: x Edge_def)
qed

section \<open>The denominator is Mason's alternating sum\<close>

lemma fold_subtract_gain:
  "fold (\<lambda>loop denom. denom - g loop) xs (d :: 'a::comm_ring_1) = d - sum_list (map g xs)"
  by (induction xs arbitrary: d) (simp_all add: algebra_simps)

lemma fold_add_gain:
  "fold (\<lambda>loop loopGain. loopGain + g loop) xs (d :: 'a::comm_ring_1) = d + sum_list (map g xs)"
  by (induction xs arbitrary: d) (simp_all add: algebra_simps)

lemma fold_levels:
  "fold (\<lambda>(index, loops) denom.
           let loopGain = S loops
           in if index mod 2 = 0 then denom + loopGain else denom - loopGain) nt (d :: 'a::comm_ring_1)
     = d + sum_list (map (\<lambda>(k, loops). (- 1) ^ k * S loops) nt)"
proof (induction nt arbitrary: d)
  case Nil
  then show ?case by simp
next
  case (Cons a nt)
  obtain k loops where a: "a = (k, loops)" by (cases a)
  show ?case
  proof (cases "even k")
    case True
    then have "k mod 2 = 0" by presburger
    then show ?thesis
      unfolding a using True by (simp add: Cons.IH add.assoc)
  next
    case False
    then have "k mod 2 \<noteq> 0" by presburger
    then show ?thesis
      unfolding a using False by (simp add: Cons.IH)
  qed
qed

lemma calculateLoopGain_fold:
  "fold (\<lambda>e ex. ex * val (weight e)) edges (x :: 'a::comm_ring_1) = x * prod_list (map (\<lambda>e. val (weight e)) edges)"
  by (induction edges arbitrary: x) (simp_all add: algebra_simps)

lemma calculateLoopGain_prod:
  "calculateLoopGain val edges = prod_list (map (\<lambda>e. val (weight e)) edges)"
  by (simp add: calculateLoopGain_def calculateLoopGain_fold)

text \<open>
  Claim C2. \<open>calculateDenominator\<close> returns 1, minus the sum of the gains of all loops, plus
  for every level \<open>k\<close> of the non-touching map the sum of the gains of its combinations
  with the sign \<open>(-1)^k\<close>: added for even \<open>k\<close>, subtracted for odd \<open>k\<close>. The gain of a
  loop is the product of its edge weights.
\<close>

theorem C2_denominator_alternating_sum:
  "calculateDenominator val allLoops nonTouching
     = 1 - sum_list (map (calculateLoopGain val) allLoops)
         + sum_list (map (\<lambda>(k, loops). (- 1) ^ k * sum_list (map (calculateLoopGain val) loops))
                     nonTouching)
   \<and> calculateLoopGain val loop = prod_list (map (\<lambda>e. val (weight e)) loop)"
proof
  show "calculateDenominator val allLoops nonTouching
     = 1 - sum_list (map (calculateLoopGain val) allLoops)
         + sum_list (map (\<lambda>(k, loops). (- 1) ^ k * sum_list (map (calculateLoopGain val) loops))
                     nonTouching)"
    by (simp add: calculateDenominator_def fold_subtract_gain fold_levels fold_add_gain)
  show "calculateLoopGain val loop = prod_list (map (\<lambda>e. val (weight e)) loop)"
    by (rule calculateLoopGain_prod)
qed

text \<open>Two loops with gains 2 and 35, a 2-wise level with gain 70 and a 3-wise level with
  gain 7.\<close>

theorem C2_denominator_alternating_sum_witness:
  "calculateDenominator (\<lambda>w. if w = ''g'' then 2 else if w = ''h'' then 5 else (7::int))
     [[Edge ''g'' ''a'' ''a''], [Edge ''h'' ''b'' ''c'', Edge ''k'' ''c'' ''b'']]
     [(2, [[Edge ''g'' ''a'' ''a'', Edge ''h'' ''b'' ''c'', Edge ''k'' ''c'' ''b'']]),
      (3, [[Edge ''k'' ''c'' ''b'']])]
   = 1 - (2 + 35) + (70 - 7)"
  using C2_denominator_alternating_sum
    [of "\<lambda>w. if w = ''g'' then 2 else if w = ''h'' then 5 else (7::int)"
        "[[Edge ''g'' ''a'' ''a''], [Edge ''h'' ''b'' ''c'', Edge ''k'' ''c'' ''b'']]"
        "[(2, [[Edge ''g'' ''a'' ''a'', Edge ''h'' ''b'' ''c'', Edge ''k'' ''c'' ''b'']]),
          (3, [[Edge ''k'' ''c'' ''b'']])]"]
  by (simp add: calculateLoopGain_def Edge_def)

section \<open>Discipline of the visited list and the edge stack\<close>

lemma dfs_visited:
  "visited (dfsFindLoops h nodes cur startId st)
     = (if node_id (h ! cur) = startId then visited st @ [startId] else visited st)"
  "visited (dfsFindLoops_for h nodes startId es st) = visited st"
proof (induction h nodes cur startId st and h nodes startId es st
       rule: dfsFindLoops_dfsFindLoops_for.induct)
  case (1 h nodes cur startId st)
  then show ?case by (auto simp add: Let_def)
next
  case (2 h nodes startId st)
  then show ?case by simp
next
  case (3 h nodes startId e es st)
  then show ?case by (simp split: option.splits)
qed

lemma dfs_stack:
  "stack (dfsFindLoops h nodes cur startId st)
     = (if node_id (h ! cur) = startId then stack st else butlast (stack st))"
  "stack (dfsFindLoops_for h nodes startId es st) = stack st"
proof (induction h nodes cur startId st and h nodes startId es st
       rule: dfsFindLoops_dfsFindLoops_for.induct)
  case (1 h nodes cur startId st)
  then show ?case by (auto simp add: Let_def)
next
  case (2 h nodes startId st)
  then show ?case by simp
next
  case (3 h nodes startId e es st)
  then show ?case by (simp split: option.splits)
qed

lemma findAllLoops_fold_visited:
  "visited (fold (\<lambda>node st. dfsFindLoops h nodes node (node_id (h ! node)) st) ns st)
     = visited st @ map (\<lambda>n. node_id (h ! n)) ns"
  by (induction ns arbitrary: st) (simp_all add: dfs_visited del: dfsFindLoops.simps)

lemma findAllLoops_fold_stack:
  "stack (fold (\<lambda>node st. dfsFindLoops h nodes node (node_id (h ! node)) st) ns st) = stack st"
  by (induction ns arbitrary: st) (simp_all add: dfs_stack del: dfsFindLoops.simps)

text \<open>
  Claim C4 as stated fails: the visited list is not scoped to one root. After the search
  rooted at \<open>a\<close> has completed, \<open>a\<close> is still marked when the search rooted at \<open>b\<close>
  begins, which is why the cycle is reported once and not once per rotation.
\<close>

theorem C4_root_mark_persists_counterexample:
  "visited (dfsFindLoops two_cycle [0, 1] 0 ''a'' \<lparr>visited = [], stack = [], cycles = []\<rparr>) = [''a'']
   \<and> visited (dfsFindLoops two_cycle [0, 1] 0 ''a'' \<lparr>visited = [], stack = [], cycles = []\<rparr>) \<noteq> []
   \<and> findAllLoops two_cycle [0, 1] = [[Edge ''g'' ''a'' ''b'', Edge ''h'' ''b'' ''a'']]"
  by (simp add: two_cycle_def findAllLoops_def findAllLoops_run_def find_node_def Edge_def)

text \<open>
  Claim C4, amended. The visited list is shared by the searches of all roots. A call for a
  non-root node \<open>v\<close>, entered after pushing the edge \<open>e\<close>, returns with the mark of \<open>v\<close>
  removed and \<open>e\<close> popped; the loop over the edges of a node leaves the visited list as it
  found it; the call for a root returns with the root's mark added and the stack as it
  was, and that mark is never removed: when \<open>findAllLoops\<close> is done the visited list holds
  the ids of all roots in order and the stack is empty.
\<close>

theorem C4_visited_shared_across_roots:
  "(node_id (h ! v) \<noteq> startId \<longrightarrow>
      visited (dfsFindLoops h nodes v startId (st\<lparr>stack := stack st @ [e]\<rparr>)) = visited st
    \<and> stack (dfsFindLoops h nodes v startId (st\<lparr>stack := stack st @ [e]\<rparr>)) = stack st)
   \<and> visited (dfsFindLoops_for h nodes startId es st) = visited st
   \<and> visited (dfsFindLoops h nodes root (node_id (h ! root)) st) = visited st @ [node_id (h ! root)]
   \<and> stack (dfsFindLoops h nodes root (node_id (h ! root)) st) = stack st
   \<and> visited (findAllLoops_run h nodes) = map (\<lambda>n. node_id (h ! n)) nodes
   \<and> stack (findAllLoops_run h nodes) = []"
  by (simp add: dfs_visited dfs_stack findAllLoops_run_def findAllLoops_fold_visited
        findAllLoops_fold_stack del: dfsFindLoops.simps)

text \<open>On the two-node cycle: the call for \<open>b\<close> inside the search rooted at \<open>a\<close>, and the
  visited list after both searches.\<close>

theorem C4_visited_shared_across_roots_witness:
  "node_id (two_cycle ! 1) \<noteq> ''a''
   \<and> visited (dfsFindLoops two_cycle [0, 1] 1 ''a''
        \<lparr>visited = [''a''], stack = [Edge ''g'' ''a'' ''b''], cycles = []\<rparr>) = [''a'']
   \<and> stack (dfsFindLoops two_cycle [0, 1] 1 ''a''
        \<lparr>visited = [''a''], stack = [Edge ''g'' ''a'' ''b''], cycles = []\<rparr>) = []
   \<and> visited (findAllLoops_run two_cycle [0, 1]) = [''a'', ''b'']"
  using C4_visited_shared_across_roots
    [of two_cycle 1 "''a''" "[0, 1]" "\<lparr>visited = [''a''], stack = [], cycles = []\<rparr>"
        "Edge ''g'' ''a'' ''b''" "[]" 0]
  by (simp add: two_cycle_def del: dfsFindLoops.simps)

section \<open>The three-node chain\<close>

lemma chain_loops_bf:
  "findAllLoops (chain [Edge ''b'' ''2'' ''3'', Edge ''f'' ''2'' ''2'']) [0, 1, 2] = [[Edge ''f'' ''2'' ''2'']]"
  by (simp add: chain_def findAllLoops_def findAllLoops_run_def find_node_def Edge_def)

lemma chain_loops_fb:
  "findAllLoops (chain [Edge ''f'' ''2'' ''2'', Edge ''b'' ''2'' ''3'']) [0, 1, 2] = [[Edge ''f'' ''2'' ''2'']]"
  by (simp add: chain_def findAllLoops_def findAllLoops_run_def find_node_def Edge_def)

lemma findNonTouching_single: "findNonTouching [l] = Inr []"
  by (simp add: findNonTouching_def findNonTouching_for.simps Map_delete_def)

lemma findNonTouching_Nil: "findNonTouching [] = Inr []"
  by (simp add: findNonTouching_def findNonTouching_for.simps Map_delete_def)

lemma chain_paths_bf:
  "findForwardPaths (chain [Edge ''b'' ''2'' ''3'', Edge ''f'' ''2'' ''2'']) (Some 0) (Some 2) [0, 1, 2] [] []
     = Inr [[Some 0, Some 1, Some 2]]"
  by (simp add: chain_def find_node_def Edge_def)

lemma chain_paths_fb:
  "findForwardPaths (chain [Edge ''f'' ''2'' ''2'', Edge ''b'' ''2'' ''3'']) (Some 0) (Some 2) [0, 1, 2] [] []
     = Inr [[Some 0, Some 1, Some 2]]"
  by (simp add: chain_def find_node_def Edge_def)

lemma chain_numerator_bf:
  "snd (calculateNumerator val (chain [Edge ''b'' ''2'' ''3'', Edge ''f'' ''2'' ''2'']) ''1'' ''3'' [0, 1, 2])
     = Inr (Some (val ''a'' * val ''b''))"
  by (simp add: calculateNumerator_def chain_def find_node_def Edge_def subtractNodes_def copy_nodes_def
      Node_copy_def Node_def Edge_copy_def splice1_def findAllLoops_def findAllLoops_run_def findNonTouching_Nil
      calculateDenominator_def)

lemma chain_numerator_fb:
  "snd (calculateNumerator val (chain [Edge ''f'' ''2'' ''2'', Edge ''b'' ''2'' ''3'']) ''1'' ''3'' [0, 1, 2])
     = Inr (Some (val ''a'' * val ''b''))"
  by (simp add: calculateNumerator_def chain_def find_node_def Edge_def subtractNodes_def copy_nodes_def
      Node_copy_def Node_def Edge_copy_def splice1_def findAllLoops_def findAllLoops_run_def findNonTouching_Nil
      calculateDenominator_def)

lemma chain_residual_bf:
  "snd (subtractNodes (chain [Edge ''b'' ''2'' ''3'', Edge ''f'' ''2'' ''2'']) [0, 1, 2] [Some 0, Some 1, Some 2])
     = Inr [3, 4]
   \<and> findAllLoops (fst (subtractNodes (chain [Edge ''b'' ''2'' ''3'', Edge ''f'' ''2'' ''2''])
                           [0, 1, 2] [Some 0, Some 1, Some 2])) [3, 4] = []"
  by (simp add: chain_def find_node_def Edge_def subtractNodes_def copy_nodes_def
      Node_copy_def Node_def Edge_copy_def splice1_def findAllLoops_def findAllLoops_run_def)

lemma chain_residual_fb:
  "snd (subtractNodes (chain [Edge ''f'' ''2'' ''2'', Edge ''b'' ''2'' ''3'']) [0, 1, 2] [Some 0, Some 1, Some 2])
     = Inr [3, 4]
   \<and> findAllLoops (fst (subtractNodes (chain [Edge ''f'' ''2'' ''2'', Edge ''b'' ''2'' ''3''])
                           [0, 1, 2] [Some 0, Some 1, Some 2])) [3, 4] = []"
  by (simp add: chain_def find_node_def Edge_def subtractNodes_def copy_nodes_def
      Node_copy_def Node_def Edge_copy_def splice1_def findAllLoops_def findAllLoops_run_def)

lemma chain_denominator:
  "calculateDenominator val [[Edge ''f'' ''2'' ''2'']] [] = 1 - val ''f''"
  by (simp add: calculateDenominator_def calculateLoopGain_def Edge_def)

text \<open>
  Claim C7. On the three-node chain, with either order of the two edges of node 2:
  \<open>findAllLoops\<close> finds the self-loop only, \<open>findNonTouching\<close> returns the empty map and the
  denominator is \<open>1 - f\<close>; the only forward path from 1 to 3 is \<open>1, 2, 3\<close>, its residual
  subgraph has no cycle, and \<open>calculateNumerator\<close> returns \<open>a * b\<close>.
\<close>

theorem C7_chain_denominator_and_numerator:
  assumes "es2 = [Edge ''b'' ''2'' ''3'', Edge ''f'' ''2'' ''2'']
           \<or> es2 = [Edge ''f'' ''2'' ''2'', Edge ''b'' ''2'' ''3'']"
  shows "findAllLoops (chain es2) [0, 1, 2] = [[Edge ''f'' ''2'' ''2'']]
    \<and> findNonTouching (findAllLoops (chain es2) [0, 1, 2]) = Inr []
    \<and> calculateDenominator val (findAllLoops (chain es2) [0, 1, 2]) [] = 1 - val ''f''
    \<and> findForwardPaths (chain es2) (Some 0) (Some 2) [0, 1, 2] [] [] = Inr [[Some 0, Some 1, Some 2]]
    \<and> snd (subtractNodes (chain es2) [0, 1, 2] [Some 0, Some 1, Some 2]) = Inr [3, 4]
    \<and> findAllLoops (fst (subtractNodes (chain es2) [0, 1, 2] [Some 0, Some 1, Some 2])) [3, 4] = []
    \<and> snd (calculateNumerator val (chain es2) ''1'' ''3'' [0, 1, 2]) = Inr (Some (val ''a'' * val ''b''))"
  using assms
proof
  assume "es2 = [Edge ''b'' ''2'' ''3'', Edge ''f'' ''2'' ''2'']"
  then show ?thesis
    using chain_residual_bf
    by (simp only: chain_loops_bf findNonTouching_single chain_denominator chain_paths_bf
          chain_numerator_bf simp_thms)
next
  assume "es2 = [Edge ''f'' ''2'' ''2'', Edge ''b'' ''2'' ''3'']"
  then show ?thesis
    using chain_residual_fb
    by (simp only: chain_loops_fb findNonTouching_single chain_denominator chain_paths_fb
          chain_numerator_fb simp_thms)
qed

text \<open>With \<open>a = 2\<close>, \<open>b = 3\<close> and \<open>f = 5\<close> in the integers.\<close>

theorem C7_chain_denominator_and_numerator_witness:
  "calculateDenominator (\<lambda>w. if w = ''a'' then 2 else if w = ''b'' then 3 else (5::int))
     (findAllLoops (chain [Edge ''b'' ''2'' ''3'', Edge ''f'' ''2'' ''2'']) [0, 1, 2]) [] = - 4
   \<and> snd (calculateNumerator (\<lambda>w. if w = ''a'' then 2 else if w = ''b'' then 3 else (5::int))
            (chain [Edge ''b'' ''2'' ''3'', Edge ''f'' ''2'' ''2'']) ''1'' ''3'' [0, 1, 2]) = Inr (Some 6)"
proof -
  let ?es = "[Edge ''b'' ''2'' ''3'', Edge ''f'' ''2'' ''2'']"
  let ?val = "\<lambda>w. if w = ''a'' then 2 else if w = ''b'' then 3 else (5::int)"
  have order: "?es = [Edge ''b'' ''2'' ''3'', Edge ''f'' ''2'' ''2'']
               \<or> ?es = [Edge ''f'' ''2'' ''2'', Edge ''b'' ''2'' ''3'']"
    by simp
  note chain = C7_chain_denominator_and_numerator [OF order, of ?val]
  from chain have "calculateDenominator ?val (findAllLoops (chain ?es) [0, 1, 2]) [] = 1 - ?val ''f''"
    by (elim conjE)
  moreover from chain
  have "snd (calculateNumerator ?val (chain ?es) ''1'' ''3'' [0, 1, 2]) = Inr (Some (?val ''a'' * ?val ''b''))"
    by (elim conjE)
  ultimately show ?thesis by simp
qed

section \<open>Unresolved edge destinations\<close>

text \<open>The cycle search skips an edge whose destination is not a node of the graph.\<close>

lemma dfsFindLoops_for_skips_unresolved:
  "find_node h nodes (endNode e) = None \<Longrightarrow>
     dfsFindLoops_for h nodes startId (e # es) st = dfsFindLoops_for h nodes startId es st"
  by simp

text \<open>Hence no recorded cycle contains such an edge.\<close>

lemma edges_resolved_visited [simp]:
  "edges_resolved h nodes (st\<lparr>visited := vs\<rparr>) = edges_resolved h nodes st"
  by (simp add: edges_resolved_def)

lemma edges_resolved_pop:
  "edges_resolved h nodes st \<Longrightarrow> edges_resolved h nodes (st\<lparr>stack := butlast (stack st)\<rparr>)"
  by (auto simp: edges_resolved_def dest: in_set_butlastD)

lemma edges_resolved_push:
  "edges_resolved h nodes st \<Longrightarrow> find_node h nodes (endNode e) \<noteq> None \<Longrightarrow>
     edges_resolved h nodes (st\<lparr>stack := stack st @ [e]\<rparr>)"
  by (auto simp: edges_resolved_def)

lemma edges_resolved_cycle:
  "edges_resolved h nodes st \<Longrightarrow> find_node h nodes (endNode e) \<noteq> None \<Longrightarrow>
     edges_resolved h nodes (st\<lparr>cycles := cycles st @ [stack st @ [e]]\<rparr>)"
  by (auto simp: edges_resolved_def)

lemma dfs_edges_resolved:
  "edges_resolved h nodes st \<Longrightarrow> edges_resolved h nodes (dfsFindLoops h nodes cur startId st)"
  "edges_resolved h nodes st \<Longrightarrow> edges_resolved h nodes (dfsFindLoops_for h nodes startId es st)"
proof (induction h nodes cur startId st and h nodes startId es st
       rule: dfsFindLoops_dfsFindLoops_for.induct)
  case (1 h nodes cur startId st)
  let ?st1 = "st\<lparr>visited := visited st @ [node_id (h ! cur)]\<rparr>"
  let ?st2 = "dfsFindLoops_for h nodes startId (outgoingEdges (h ! cur)) ?st1"
  from "1.prems" have "edges_resolved h nodes ?st1" by simp
  then have r2: "edges_resolved h nodes ?st2" by (rule "1.IH" [OF refl])
  show ?case
  proof (cases "node_id (h ! cur) = startId")
    case True
    then show ?thesis using r2 by (simp add: Let_def)
  next
    case False
    then show ?thesis using edges_resolved_pop [OF r2] by (simp add: Let_def)
  qed
next
  case (2 h nodes startId st)
  then show ?case by simp
next
  case (3 h nodes startId e es st)
  show ?case
  proof (cases "find_node h nodes (endNode e)")
    case None
    then show ?thesis using "3.IH"(1) [OF None "3.prems"] by simp
  next
    case (Some v)
    then have e: "find_node h nodes (endNode e) \<noteq> None" by simp
    show ?thesis
    proof (cases "node_id (h ! v) = startId")
      case True
      from "3.IH"(2) [OF Some True edges_resolved_cycle [OF "3.prems" e]]
      show ?thesis using Some True by simp
    next
      case False
      show ?thesis
      proof (cases "node_id (h ! v) \<in> set (visited st)")
        case True
        from "3.IH"(5) [OF Some False _ "3.prems"] True
        show ?thesis using Some False by simp
      next
        case nv: False
        have "edges_resolved h nodes (dfsFindLoops h nodes v startId (st\<lparr>stack := stack st @ [e]\<rparr>))"
          by (rule "3.IH"(3) [OF Some False nv edges_resolved_push [OF "3.prems" e]])
        from "3.IH"(4) [OF Some False nv this]
        show ?thesis using Some False nv by (simp del: dfsFindLoops.simps)
      qed
    qed
  qed
qed

lemma findAllLoops_fold_resolved:
  "edges_resolved h nodes st \<Longrightarrow>
     edges_resolved h nodes (fold (\<lambda>node st. dfsFindLoops h nodes node (node_id (h ! node)) st) ns st)"
  by (induction ns arbitrary: st) (simp_all add: dfs_edges_resolved del: dfsFindLoops.simps)

lemma findAllLoops_edges_resolved:
  "c \<in> set (findAllLoops h nodes) \<Longrightarrow> e \<in> set c \<Longrightarrow> find_node h nodes (endNode e) \<noteq> None"
proof -
  have "edges_resolved h nodes \<lparr>visited = [], stack = [], cycles = []\<rparr>"
    by (simp add: edges_resolved_def)
  then have "edges_resolved h nodes (findAllLoops_run h nodes)"
    unfolding findAllLoops_run_def by (rule findAllLoops_fold_resolved)
  then show "c \<in> set (findAllLoops h nodes) \<Longrightarrow> e \<in> set c \<Longrightarrow> find_node h nodes (endNode e) \<noteq> None"
    by (auto simp: edges_resolved_def findAllLoops_def)
qed

text \<open>
  Claim C3 holds for the cycle search and fails for the forward-path search: on this graph
  \<open>findAllLoops\<close> skips the edge \<open>1 \<rightarrow> 9\<close> and returns the self-loop, while
  \<open>findForwardPaths\<close> recurses into the unresolved destination and raises a TypeError, which
  \<open>calculateNumerator\<close> does not catch, although the path \<open>1, 2\<close> exists.
\<close>

theorem C3_unresolved_destination_raises_in_forward_paths:
  "findAllLoops dangling [0, 1] = [[Edge ''f'' ''2'' ''2'']]
   \<and> findForwardPaths dangling (Some 0) (Some 1) [0, 1] [] [] = Inl TypeError
   \<and> snd (calculateNumerator val dangling ''1'' ''2'' [0, 1]) = Inl TypeError"
  by (simp add: dangling_def findAllLoops_def findAllLoops_run_def find_node_def Edge_def
        calculateNumerator_def)

section \<open>The residual subgraph keeps path nodes and parallel edges\<close>

lemma parallel_paths:
  "findForwardPaths parallel (Some 0) (Some 3) [0, 1, 2, 3] [] [] = Inr [[Some 0, Some 1, Some 3]]"
  by (simp add: parallel_def find_node_def Edge_def)

lemma parallel_subtract:
  "subtractNodes parallel [0, 1, 2, 3] [Some 0, Some 1, Some 3]
     = (parallel @
        [\<lparr>node_id = ''S'', node_value = (), outgoingEdges = []\<rparr>,
         \<lparr>node_id = ''P'', node_value = (), outgoingEdges = [Edge ''c'' ''P'' ''X'']\<rparr>,
         \<lparr>node_id = ''X'', node_value = (), outgoingEdges = [Edge ''e'' ''X'' ''P'']\<rparr>,
         \<lparr>node_id = ''E'', node_value = (), outgoingEdges = []\<rparr>],
        Inr [4, 5, 6])"
  by (simp add: parallel_def subtractNodes_def copy_nodes_def Node_copy_def Node_def Edge_copy_def
        Edge_def splice1_def)

lemma parallel_residual_loops:
  "findAllLoops (fst (subtractNodes parallel [0, 1, 2, 3] [Some 0, Some 1, Some 3])) [4, 5, 6]
     = [[Edge ''c'' ''P'' ''X'', Edge ''e'' ''X'' ''P'']]"
  unfolding parallel_subtract
  by (simp add: parallel_def findAllLoops_def findAllLoops_run_def find_node_def Edge_def)

lemma parallel_numerator:
  "snd (calculateNumerator val parallel ''S'' ''E'' [0, 1, 2, 3])
     = Inr (Some (val ''a'' * val ''b'' * (1 - val ''c'' * val ''e'')))"
  by (simp add: calculateNumerator_def parallel_def find_node_def Edge_def subtractNodes_def copy_nodes_def
      Node_copy_def Node_def Edge_copy_def splice1_def findAllLoops_def findAllLoops_run_def
      findNonTouching_single calculateDenominator_def calculateLoopGain_def)

text \<open>
  Claim C1 fails on the code. For the forward path \<open>S, P, E\<close> the residual subgraph built by
  \<open>subtractNodes\<close> consists of the copies of S, P and X: the path nodes S and P are still
  there as sources (\<open>includes\<close> compares the copy with the original objects), P keeps its
  edge to X, and X keeps the second of its two edges to P (only the first edge to each
  subtracted node is removed). The residual therefore has the cycle \<open>P \<rightarrow> X \<rightarrow> P\<close> and the
  numerator is \<open>a * b * (1 - c * e)\<close> where the cofactor of the path is 1.
\<close>

theorem C1_residual_keeps_path_nodes:
  "snd (subtractNodes parallel [0, 1, 2, 3] [Some 0, Some 1, Some 3]) = Inr [4, 5, 6]
   \<and> map (\<lambda>n. node_id (fst (subtractNodes parallel [0, 1, 2, 3] [Some 0, Some 1, Some 3]) ! n))
        [4, 5, 6] = [''S'', ''P'', ''X'']
   \<and> outgoingEdges (fst (subtractNodes parallel [0, 1, 2, 3] [Some 0, Some 1, Some 3]) ! 5)
        = [Edge ''c'' ''P'' ''X'']
   \<and> outgoingEdges (fst (subtractNodes parallel [0, 1, 2, 3] [Some 0, Some 1, Some 3]) ! 6)
        = [Edge ''e'' ''X'' ''P'']
   \<and> findAllLoops (fst (subtractNodes parallel [0, 1, 2, 3] [Some 0, Some 1, Some 3])) [4, 5, 6]
        = [[Edge ''c'' ''P'' ''X'', Edge ''e'' ''X'' ''P'']]
   \<and> snd (calculateNumerator val parallel ''S'' ''E'' [0, 1, 2, 3])
        = Inr (Some (val ''a'' * val ''b'' * (1 - val ''c'' * val ''e'')))"
proof -
  have len: "length parallel = 4"
    by (simp add: parallel_def)
  show ?thesis
    unfolding parallel_numerator parallel_residual_loops
    unfolding parallel_subtract
    by (simp add: nth_append len)
qed

section \<open>Levels of the non-touching map\<close>

lemma Map_set_fresh: "k \<notin> fst ` set m \<Longrightarrow> Map_set m k v = m @ [(k, v)]"
  by (induction m) auto

lemma Map_set_last: "k \<notin> fst ` set m \<Longrightarrow> Map_set (m @ [(k, u)]) k v = m @ [(k, v)]"
  by (induction m) auto

lemma Map_delete_last: "k \<notin> fst ` set m \<Longrightarrow> Map_delete (m @ [(k, v)]) k = m"
  by (induction m) (auto simp: Map_delete_def)

lemma Map_get_present: "k \<in> fst ` set m \<Longrightarrow> \<exists>v. Map_get m k = Some v"
  by (cases "map_of m k") (auto simp: Map_get_def map_of_eq_None_iff)

lemma findNonTouching_for_levels:
  "2 \<le> i \<Longrightarrow> levels_ok i (nonTouchingLoops st) \<Longrightarrow>
     \<exists>st' j. findNonTouching_for allLoops i st = Inr st' \<and> i \<le> j \<and> levels_ok j (nonTouchingLoops st')"
proof (induction allLoops i st rule: findNonTouching_for.induct)
  case (1 allLoops i st)
  let ?m = "nonTouchingLoops st"
  from "1.prems" have keys: "map fst ?m = [1..<i]" by (simp add: levels_ok_def)
  have "i \<notin> set [1..<i]" by simp
  with keys have fresh: "i \<notin> fst ` set ?m"
    by (metis set_map)
  show ?case
  proof (cases "i \<le> length allLoops")
    case False
    then have "findNonTouching_for allLoops i st = Inr st"
      by (simp add: findNonTouching_for.simps)
    with "1.prems" show ?thesis by blast
  next
    case True
    from "1.prems"(1) have "i - 1 \<in> set [1..<i]" by auto
    with keys have "i - 1 \<in> fst ` set ?m"
      by (metis set_map)
    then obtain prevSet where prev: "Map_get ?m (i - 1) = Some prevSet"
      using Map_get_present by blast
    obtain existing ithNonTouch
      where lvl: "nonTouching_level allLoops prevSet (existingGains st) = (existing, ithNonTouch)"
      by (cases "nonTouching_level allLoops prevSet (existingGains st)")
    have m: "Map_set (Map_set ?m i []) i ithNonTouch = ?m @ [(i, ithNonTouch)]"
      using fresh by (simp add: Map_set_fresh Map_set_last)
    show ?thesis
    proof (cases "ithNonTouch = []")
      case True
      have "findNonTouching_for allLoops i st = Inr \<lparr>nonTouchingLoops = ?m, existingGains = existing\<rparr>"
        using \<open>i \<le> length allLoops\<close> prev lvl m True fresh
        by (simp add: findNonTouching_for.simps [of allLoops i st] Map_delete_last)
      with "1.prems" show ?thesis by fastforce
    next
      case False
      let ?st = "\<lparr>nonTouchingLoops = ?m @ [(i, ithNonTouch)], existingGains = existing\<rparr>"
      have step: "findNonTouching_for allLoops i st = findNonTouching_for allLoops (i + 1) ?st"
        using \<open>i \<le> length allLoops\<close> prev lvl m False
        by (simp add: findNonTouching_for.simps [of allLoops i st])
      have ok: "levels_ok (i + 1) (nonTouchingLoops ?st)"
        using "1.prems" False by (auto simp: levels_ok_def)
      have "\<exists>st' j. findNonTouching_for allLoops (i + 1)
                \<lparr>nonTouchingLoops = Map_set (Map_set ?m i []) i ithNonTouch,
                   existingGains = existing\<rparr> = Inr st' \<and> i + 1 \<le> j
               \<and> levels_ok j (nonTouchingLoops st')"
      proof (rule "1.IH" [OF \<open>i \<le> length allLoops\<close> prev lvl [symmetric] refl])
        show "length ithNonTouch \<noteq> 0" using False by simp
        show "2 \<le> i + 1" using "1.prems"(1) by simp
        show "levels_ok (i + 1)
                (nonTouchingLoops \<lparr>nonTouchingLoops = Map_set (Map_set ?m i []) i ithNonTouch,
                                    existingGains = existing\<rparr>)"
          unfolding m using ok by simp
      qed
      then have "\<exists>st' j. findNonTouching_for allLoops (i + 1) ?st = Inr st' \<and> i + 1 \<le> j
               \<and> levels_ok j (nonTouchingLoops st')"
        unfolding m .
      then show ?thesis
        unfolding step by (metis add_leD1)
    qed
  qed
qed

lemma Map_delete_first_level:
  assumes "map fst m = [1..<j]" and "2 \<le> j"
  shows "map fst (Map_delete m 1) = [2..<j] \<and> set (Map_delete m 1) \<subseteq> set m"
proof -
  from assms(2) have "[1..<j] = 1 # [Suc 1..<j]"
    by (simp add: upt_conv_Cons)
  then have "[1..<j] = 1 # [2..<j]"
    by (simp only: Suc_1)
  with assms(1) have "map fst m = 1 # [2..<j]"
    by simp
  then obtain kv rest where m: "m = kv # rest" and kv: "fst kv = 1" and rest: "map fst rest = [2..<j]"
    by (cases m) auto
  have "fst x \<noteq> 1" if "x \<in> set rest" for x
  proof -
    from that have "fst x \<in> set (map fst rest)" by simp
    then show ?thesis unfolding rest by simp
  qed
  then have "filter (\<lambda>kv. fst kv \<noteq> 1) rest = rest"
    by (simp add: filter_id_conv)
  then show ?thesis
    using m kv rest by (auto simp: Map_delete_def)
qed

text \<open>
  Claim C6. For every cycle list \<open>findNonTouching\<close> returns a map (the lookup of the
  previous level never fails) whose keys are exactly \<open>2, 3, \<dots>\<close> up to some level, in this
  order and without a gap, and none of whose levels is empty: every key is at least 2, and
  since a level that comes out empty is deleted and ends the loop, no level appears after
  a missing one.
\<close>

theorem C6_levels_contiguous_from_two_and_nonempty:
  "\<exists>m. findNonTouching allLoops = Inr m
       \<and> map fst m = [2..<2 + length m]
       \<and> (\<forall>kv \<in> set m. 2 \<le> fst kv \<and> snd kv \<noteq> [])
       \<and> (\<forall>k k'. 2 \<le> k \<and> k \<le> k' \<and> k' \<in> fst ` set m \<longrightarrow> k \<in> fst ` set m)"
proof -
  let ?st = "\<lparr>nonTouchingLoops = Map_set [] 1 allLoops, existingGains = []\<rparr>"
  have "levels_ok 2 (nonTouchingLoops ?st)"
    by (simp add: levels_ok_def numeral_2_eq_2)
  then obtain st' j where run: "findNonTouching_for allLoops 2 ?st = Inr st'"
      and j: "2 \<le> j" and ok: "levels_ok j (nonTouchingLoops st')"
    using findNonTouching_for_levels [of 2 ?st allLoops] by auto
  let ?m = "Map_delete (nonTouchingLoops st') 1"
  from ok have keys': "map fst (nonTouchingLoops st') = [1..<j]"
    by (simp add: levels_ok_def)
  from Map_delete_first_level [OF keys' j]
  have keys: "map fst ?m = [2..<j]" and sub: "set ?m \<subseteq> set (nonTouchingLoops st')"
    by simp_all
  have res: "findNonTouching allLoops = Inr ?m"
    unfolding findNonTouching_def run by simp
  from keys have "length ?m = j - 2"
    by (metis length_map length_upt)
  with j have "2 + length ?m = j" by simp
  with keys have contiguous: "map fst ?m = [2..<2 + length ?m]" by (simp only:)
  have keyset: "fst ` set ?m = {2..<j}"
    by (metis keys set_map set_upt)
  have nonempty: "\<forall>kv \<in> set ?m. 2 \<le> fst kv \<and> snd kv \<noteq> []"
  proof
    fix kv assume kv: "kv \<in> set ?m"
    then have "fst kv \<in> {2..<j}" using keyset by blast
    moreover from kv sub ok have "2 \<le> fst kv \<longrightarrow> snd kv \<noteq> []"
      by (auto simp: levels_ok_def)
    ultimately show "2 \<le> fst kv \<and> snd kv \<noteq> []" by simp
  qed
  have closed: "\<forall>k k'. 2 \<le> k \<and> k \<le> k' \<and> k' \<in> fst ` set ?m \<longrightarrow> k \<in> fst ` set ?m"
    unfolding keyset by auto
  from res contiguous nonempty closed show ?thesis by blast
qed

section \<open>Two disjoint loops\<close>

lemma sort_ids_append_commute:
  "sort (map edge_id (l1 @ l2)) = sort (map edge_id (l2 @ l1))"
  by (rule properties_for_sort) (simp_all add: union_commute)

lemma touching_self: "l \<noteq> [] \<Longrightarrow> list_ex (\<lambda>node. node \<in> set (map endNode l)) (map endNode l)"
  by (cases l) (auto simp: list_ex_iff)

lemma not_touching_disjoint:
  "set (map endNode l1) \<inter> set (map endNode l2) = {} \<Longrightarrow>
     \<not> list_ex (\<lambda>node. node \<in> set (map endNode l1)) (map endNode l2)"
  by (auto simp: list_ex_iff)

lemma nonTouching_level_two:
  assumes "l1 \<noteq> []" "l2 \<noteq> []" "set (map endNode l1) \<inter> set (map endNode l2) = {}"
  shows "nonTouching_level [l1, l2] [l1, l2] []
           = ([toString (sort (map edge_id (l2 @ l1)))], [l2 @ l1])"
proof -
  let ?k = "toString (sort (map edge_id (l2 @ l1)))"
  have b11: "nonTouching_body l1 l1 ([], []) = ([], [])"
    using touching_self [OF assms(1)] by (simp add: nonTouching_body_def Let_def)
  have b12: "nonTouching_body l1 l2 ([], []) = ([?k], [l2 @ l1])"
    using not_touching_disjoint [OF assms(3)] by (simp add: nonTouching_body_def Let_def)
  have b21: "nonTouching_body l2 l1 ([?k], [l2 @ l1]) = ([?k], [l2 @ l1])"
    unfolding nonTouching_body_def Let_def sort_ids_append_commute [of l1 l2] by simp
  have b22: "nonTouching_body l2 l2 ([?k], [l2 @ l1]) = ([?k], [l2 @ l1])"
    using touching_self [OF assms(2)] by (simp add: nonTouching_body_def Let_def)
  show ?thesis
    by (simp only: nonTouching_level_def fold_simps o_apply id_apply b11 b12 b21 b22)
qed

lemma findNonTouching_two:
  assumes "l1 \<noteq> []" "l2 \<noteq> []" "set (map endNode l1) \<inter> set (map endNode l2) = {}"
  shows "findNonTouching [l1, l2] = Inr [(2, [l2 @ l1])]"
proof -
  let ?st = "\<lparr>nonTouchingLoops = Map_set [] 1 [l1, l2], existingGains = []\<rparr>"
  let ?st' = "\<lparr>nonTouchingLoops = [(1, [l1, l2]), (2, [l2 @ l1])],
               existingGains = [toString (sort (map edge_id (l2 @ l1)))]\<rparr>"
  have "findNonTouching_for [l1, l2] 2 ?st = findNonTouching_for [l1, l2] (2 + 1) ?st'"
    by (subst findNonTouching_for.simps)
       (simp add: Map_get_def nonTouching_level_two [OF assms])
  also have "\<dots> = Inr ?st'"
    by (subst findNonTouching_for.simps) simp
  finally show ?thesis
    by (simp add: findNonTouching_def Map_delete_def)
qed

text \<open>Every cycle recorded by the search has at least one edge.\<close>

lemma dfs_cycles_nonempty:
  "[] \<notin> set (cycles st) \<Longrightarrow> [] \<notin> set (cycles (dfsFindLoops h nodes cur startId st))"
  "[] \<notin> set (cycles st) \<Longrightarrow> [] \<notin> set (cycles (dfsFindLoops_for h nodes startId es st))"
proof (induction h nodes cur startId st and h nodes startId es st
       rule: dfsFindLoops_dfsFindLoops_for.induct)
  case (1 h nodes cur startId st)
  then show ?case by (auto simp add: Let_def)
next
  case (2 h nodes startId st)
  then show ?case by simp
next
  case (3 h nodes startId e es st)
  then show ?case by (auto split: option.splits)
qed

lemma findAllLoops_fold_nonempty:
  "[] \<notin> set (cycles st) \<Longrightarrow>
     [] \<notin> set (cycles (fold (\<lambda>node st. dfsFindLoops h nodes node (node_id (h ! node)) st) ns st))"
  by (induction ns arbitrary: st) (simp_all add: dfs_cycles_nonempty del: dfsFindLoops.simps)

lemma findAllLoops_nonempty: "[] \<notin> set (findAllLoops h nodes)"
  by (simp add: findAllLoops_def findAllLoops_run_def findAllLoops_fold_nonempty
        del: dfsFindLoops.simps)

lemma two_loops_cycles:
  "findAllLoops two_loops [0, 1, 2]
     = [[Edge ''g'' ''a'' ''b'', Edge ''h'' ''b'' ''a''], [Edge ''k'' ''c'' ''c'']]"
  by (simp add: two_loops_def findAllLoops_def findAllLoops_run_def find_node_def Edge_def)

text \<open>The key of a combination. Joined with commas, the sorted ids determine the key, and
  for non-empty combinations whose ids contain no comma the key determines the sorted
  ids.\<close>

lemma comma_split:
  "c \<notin> set x \<Longrightarrow> c \<notin> set y \<Longrightarrow> x @ c # r = y @ c # s \<Longrightarrow> x = y \<and> r = s"
proof (induction x arbitrary: y)
  case Nil
  then show ?case by (cases y) auto
next
  case (Cons a x)
  then show ?case by (cases y) auto
qed

lemma toString_inject:
  "xs \<noteq> [] \<Longrightarrow> ys \<noteq> [] \<Longrightarrow> \<forall>x \<in> set xs \<union> set ys. CHR '','' \<notin> set x \<Longrightarrow>
     toString xs = toString ys \<Longrightarrow> xs = ys"
proof (induction xs arbitrary: ys rule: toString.induct)
  case 1
  then show ?case by simp
next
  case (2 x)
  show ?case
  proof (cases ys rule: toString.cases)
    case 1
    with 2 show ?thesis by simp
  next
    case (2 y)
    with "2.prems" show ?thesis by simp
  next
    case (3 y y2 r)
    with "2.prems" have "x = y @ CHR '','' # toString (y2 # r)" by simp
    then have "CHR '','' \<in> set x" by simp
    with "2.prems" show ?thesis by simp
  qed
next
  case (3 x x2 r)
  show ?case
  proof (cases ys rule: toString.cases)
    case 1
    with 3 show ?thesis by simp
  next
    case (2 y)
    with "3.prems" have "y = x @ CHR '','' # toString (x2 # r)" by simp
    then have "CHR '','' \<in> set y" by simp
    with "3.prems" 2 show ?thesis by simp
  next
    case ys: (3 y y2 s)
    with "3.prems" have eq: "x @ CHR '','' # toString (x2 # r) = y @ CHR '','' # toString (y2 # s)"
      by simp
    from "3.prems" ys have "CHR '','' \<notin> set x" "CHR '','' \<notin> set y" by simp_all
    from comma_split [OF this eq] have xy: "x = y" and rest: "toString (x2 # r) = toString (y2 # s)"
      by simp_all
    have "x2 # r = y2 # s"
    proof (rule "3.IH" [OF _ _ _ rest])
      show "\<forall>x \<in> set (x2 # r) \<union> set (y2 # s). CHR '','' \<notin> set x"
        using "3.prems"(3) ys by simp
    qed simp_all
    with xy ys show ?thesis by simp
  qed
qed

lemma edge_id_key_eq_iff:
  assumes "c1 \<noteq> []" "c2 \<noteq> []" "\<forall>e \<in> set c1 \<union> set c2. CHR '','' \<notin> set (edge_id e)"
  shows "edge_id_key c1 = edge_id_key c2 \<longleftrightarrow> mset (map edge_id c1) = mset (map edge_id c2)"
proof
  assume "mset (map edge_id c1) = mset (map edge_id c2)"
  then have "sort (map edge_id c1) = sort (map edge_id c2)"
    by (intro properties_for_sort) simp_all
  then show "edge_id_key c1 = edge_id_key c2"
    by (simp add: edge_id_key_def)
next
  assume "edge_id_key c1 = edge_id_key c2"
  then have k: "toString (sort (map edge_id c1)) = toString (sort (map edge_id c2))"
    by (simp add: edge_id_key_def)
  have "sort (map edge_id c1) = sort (map edge_id c2)"
  proof (rule toString_inject [OF _ _ _ k])
    show "sort (map edge_id c1) \<noteq> []" using assms(1) by (metis length_sort length_map length_0_conv)
    show "sort (map edge_id c2) \<noteq> []" using assms(2) by (metis length_sort length_map length_0_conv)
    show "\<forall>x \<in> set (sort (map edge_id c1)) \<union> set (sort (map edge_id c2)). CHR '','' \<notin> set x"
      using assms(3) by auto
  qed
  then have "mset (sort (map edge_id c1)) = mset (sort (map edge_id c2))" by simp
  then show "mset (map edge_id c1) = mset (map edge_id c2)" by simp
qed

lemma nonTouching_body_keys:
  assumes "fst acc = base @ map edge_id_key (snd acc)" and "distinct (fst acc)"
  shows "fst (nonTouching_body currLoop remainingLoop acc)
           = base @ map edge_id_key (snd (nonTouching_body currLoop remainingLoop acc))
         \<and> distinct (fst (nonTouching_body currLoop remainingLoop acc))"
  using assms by (cases acc) (auto simp: nonTouching_body_def Let_def edge_id_key_def)

lemma nonTouching_inner_keys:
  "fst acc = base @ map edge_id_key (snd acc) \<Longrightarrow> distinct (fst acc) \<Longrightarrow>
     fst (fold (nonTouching_body currLoop) ls acc)
       = base @ map edge_id_key (snd (fold (nonTouching_body currLoop) ls acc))
     \<and> distinct (fst (fold (nonTouching_body currLoop) ls acc))"
proof (induction ls arbitrary: acc)
  case Nil
  then show ?case by simp
next
  case (Cons l ls)
  from nonTouching_body_keys [OF Cons.prems, of currLoop l]
  have a: "fst (nonTouching_body currLoop l acc)
             = base @ map edge_id_key (snd (nonTouching_body currLoop l acc))"
    and b: "distinct (fst (nonTouching_body currLoop l acc))"
    by blast+
  show ?case unfolding fold_simps o_apply by (rule Cons.IH [OF a b])
qed

lemma nonTouching_outer_keys:
  "fst acc = base @ map edge_id_key (snd acc) \<Longrightarrow> distinct (fst acc) \<Longrightarrow>
     fst (fold (\<lambda>currLoop acc. fold (nonTouching_body currLoop) allLoops acc) ps acc)
       = base @ map edge_id_key
           (snd (fold (\<lambda>currLoop acc. fold (nonTouching_body currLoop) allLoops acc) ps acc))
     \<and> distinct (fst (fold (\<lambda>currLoop acc. fold (nonTouching_body currLoop) allLoops acc) ps acc))"
proof (induction ps arbitrary: acc)
  case Nil
  then show ?case by simp
next
  case (Cons p ps)
  from nonTouching_inner_keys [OF Cons.prems, of p allLoops]
  have a: "fst (fold (nonTouching_body p) allLoops acc)
             = base @ map edge_id_key (snd (fold (nonTouching_body p) allLoops acc))"
    and b: "distinct (fst (fold (nonTouching_body p) allLoops acc))"
    by blast+
  show ?case unfolding fold_simps o_apply by (rule Cons.IH [OF a b])
qed

lemma nonTouching_level_keys:
  "distinct existing \<Longrightarrow>
     fst (nonTouching_level allLoops prevSet existing)
       = existing @ map edge_id_key (snd (nonTouching_level allLoops prevSet existing))
     \<and> distinct (fst (nonTouching_level allLoops prevSet existing))"
  unfolding nonTouching_level_def
  by (rule nonTouching_outer_keys) simp_all

lemma key_cab: "edge_id_key [Edge ''k'' ''c'' ''c'', Edge ''g'' ''a'' ''b'', Edge ''h'' ''b'' ''a''] = ''ab,ba,cc''"
  by code_simp

lemma key_abab: "edge_id_key [Edge ''g'' ''a'' ''b'', Edge ''h'' ''b'' ''a'', Edge ''g'' ''a'' ''b'', Edge ''h'' ''b'' ''a''] = ''ab,ab,ba,ba''"
  by code_simp

text \<open>
  Claim C5. When the cycles found in a graph are exactly two loops \<open>L1\<close> (found first) and
  \<open>L2\<close> that share no node, \<open>findNonTouching\<close> returns the single level 2 with the single
  combination \<open>L2 @ L1\<close>, and had the two loops been found in the other order the result
  would again be one combination. Deduplication is by the key \<open>edge_id_key\<close>, the sorted
  edge ids of the combination joined with commas: the level leaves the key of \<open>L2 @ L1\<close> in
  \<open>existingGains\<close>; the candidate met again as \<open>L1 @ L2\<close> has the same key and is dropped
  for it, and would be accepted if the key were not there; two non-empty combinations whose
  ids contain no comma have the same key exactly when they have the same edge ids with
  the same multiplicities; and in every level, for every cycle list, the keys added to
  \<open>existingGains\<close> are those of the accepted combinations and no key occurs twice.
\<close>

theorem C5_two_disjoint_loops_one_combination:
  assumes "findAllLoops h nodes = [L1, L2]"
    and "set (map endNode L1) \<inter> set (map endNode L2) = {}"
  shows "findNonTouching (findAllLoops h nodes) = Inr [(2, [L2 @ L1])]
         \<and> findNonTouching [L2, L1] = Inr [(2, [L1 @ L2])]
         \<and> nonTouching_level [L1, L2] [L1, L2] [] = ([edge_id_key (L2 @ L1)], [L2 @ L1])
         \<and> edge_id_key (L1 @ L2) = edge_id_key (L2 @ L1)
         \<and> nonTouching_body L2 L1 ([edge_id_key (L2 @ L1)], [L2 @ L1])
             = ([edge_id_key (L2 @ L1)], [L2 @ L1])
         \<and> nonTouching_body L2 L1 ([], []) = ([edge_id_key (L1 @ L2)], [L1 @ L2])
         \<and> edge_id_key c = toString (sort (map edge_id c))
         \<and> (c1 \<noteq> [] \<and> c2 \<noteq> [] \<and> (\<forall>e \<in> set c1 \<union> set c2. CHR '','' \<notin> set (edge_id e))
              \<longrightarrow> (edge_id_key c1 = edge_id_key c2
                     \<longleftrightarrow> mset (map edge_id c1) = mset (map edge_id c2)))
         \<and> (distinct existing
              \<longrightarrow> fst (nonTouching_level allLoops prevSet existing)
                     = existing @ map edge_id_key (snd (nonTouching_level allLoops prevSet existing))
                   \<and> distinct (fst (nonTouching_level allLoops prevSet existing)))"
proof -
  have "[] \<notin> set (findAllLoops h nodes)"
    by (rule findAllLoops_nonempty)
  with assms(1) have ne: "L1 \<noteq> []" "L2 \<noteq> []"
    by auto
  from assms(2) have disj: "set (map endNode L2) \<inter> set (map endNode L1) = {}"
    by blast
  have one: "findNonTouching (findAllLoops h nodes) = Inr [(2, [L2 @ L1])]"
    unfolding assms(1) by (rule findNonTouching_two [OF ne assms(2)])
  have other: "findNonTouching [L2, L1] = Inr [(2, [L1 @ L2])]"
    by (rule findNonTouching_two [OF ne(2) ne(1) disj])
  have level: "nonTouching_level [L1, L2] [L1, L2] [] = ([edge_id_key (L2 @ L1)], [L2 @ L1])"
    unfolding edge_id_key_def by (rule nonTouching_level_two [OF ne assms(2)])
  have same: "edge_id_key (L1 @ L2) = edge_id_key (L2 @ L1)"
    unfolding edge_id_key_def by (simp only: sort_ids_append_commute [of L1 L2])
  have dropped: "nonTouching_body L2 L1 ([edge_id_key (L2 @ L1)], [L2 @ L1])
                   = ([edge_id_key (L2 @ L1)], [L2 @ L1])"
    unfolding nonTouching_body_def Let_def edge_id_key_def sort_ids_append_commute [of L1 L2]
    by simp
  have accepted: "nonTouching_body L2 L1 ([], []) = ([edge_id_key (L1 @ L2)], [L1 @ L2])"
    using not_touching_disjoint [OF disj]
    by (simp add: nonTouching_body_def Let_def edge_id_key_def)
  have key: "edge_id_key c = toString (sort (map edge_id c))"
    by (rule edge_id_key_def)
  have inj: "c1 \<noteq> [] \<and> c2 \<noteq> [] \<and> (\<forall>e \<in> set c1 \<union> set c2. CHR '','' \<notin> set (edge_id e))
              \<longrightarrow> (edge_id_key c1 = edge_id_key c2
                     \<longleftrightarrow> mset (map edge_id c1) = mset (map edge_id c2))"
    using edge_id_key_eq_iff [of c1 c2] by blast
  have keys: "distinct existing
              \<longrightarrow> fst (nonTouching_level allLoops prevSet existing)
                     = existing @ map edge_id_key (snd (nonTouching_level allLoops prevSet existing))
                   \<and> distinct (fst (nonTouching_level allLoops prevSet existing))"
    using nonTouching_level_keys [of existing allLoops prevSet] by blast
  from one other level same dropped accepted key inj keys show ?thesis
    by (intro conjI)
qed

text \<open>The graph with the loops \<open>a \<rightarrow> b \<rightarrow> a\<close> and \<open>c \<rightarrow> c\<close>: the key of the
  combination is \<open>ab,ba,cc\<close>, whichever loop comes first, and differs from the key of the
  first loop taken twice.\<close>

theorem C5_two_disjoint_loops_one_combination_witness:
  "findAllLoops two_loops [0, 1, 2]
     = [[Edge ''g'' ''a'' ''b'', Edge ''h'' ''b'' ''a''], [Edge ''k'' ''c'' ''c'']]
   \<and> set (map endNode [Edge ''g'' ''a'' ''b'', Edge ''h'' ''b'' ''a''])
       \<inter> set (map endNode [Edge ''k'' ''c'' ''c'']) = {}
   \<and> findNonTouching (findAllLoops two_loops [0, 1, 2])
       = Inr [(2, [[Edge ''k'' ''c'' ''c'', Edge ''g'' ''a'' ''b'', Edge ''h'' ''b'' ''a'']])]
   \<and> nonTouching_level [[Edge ''g'' ''a'' ''b'', Edge ''h'' ''b'' ''a''], [Edge ''k'' ''c'' ''c'']]
        [[Edge ''g'' ''a'' ''b'', Edge ''h'' ''b'' ''a''], [Edge ''k'' ''c'' ''c'']] []
       = ([''ab,ba,cc''], [[Edge ''k'' ''c'' ''c'', Edge ''g'' ''a'' ''b'', Edge ''h'' ''b'' ''a'']])
   \<and> edge_id_key [Edge ''g'' ''a'' ''b'', Edge ''h'' ''b'' ''a'', Edge ''k'' ''c'' ''c''] = ''ab,ba,cc''
   \<and> edge_id_key [Edge ''g'' ''a'' ''b'', Edge ''h'' ''b'' ''a'', Edge ''g'' ''a'' ''b'', Edge ''h'' ''b'' ''a'']
       = ''ab,ab,ba,ba''
   \<and> mset (map edge_id [Edge ''k'' ''c'' ''c'', Edge ''g'' ''a'' ''b'', Edge ''h'' ''b'' ''a''])
       \<noteq> mset (map edge_id [Edge ''g'' ''a'' ''b'', Edge ''h'' ''b'' ''a'', Edge ''g'' ''a'' ''b'',
                              Edge ''h'' ''b'' ''a''])
   \<and> edge_id_key [Edge ''k'' ''c'' ''c'', Edge ''g'' ''a'' ''b'', Edge ''h'' ''b'' ''a'']
       \<noteq> edge_id_key [Edge ''g'' ''a'' ''b'', Edge ''h'' ''b'' ''a'', Edge ''g'' ''a'' ''b'',
                        Edge ''h'' ''b'' ''a'']"
proof -
  let ?L1 = "[Edge ''g'' ''a'' ''b'', Edge ''h'' ''b'' ''a'']"
  let ?L2 = "[Edge ''k'' ''c'' ''c'']"
  have disj: "set (map endNode ?L1) \<inter> set (map endNode ?L2) = {}"
    by (simp add: Edge_def)
  note two = C5_two_disjoint_loops_one_combination [OF two_loops_cycles disj, of "?L2 @ ?L1" "?L2 @ ?L1" "?L1 @ ?L1"
                    "[]" "[?L1, ?L2]" "[?L1, ?L2]"]
  have commas: "\<forall>e \<in> set (?L2 @ ?L1) \<union> set (?L1 @ ?L1). CHR '','' \<notin> set (edge_id e)"
    by (simp add: Edge_def)
  have msets: "mset (map edge_id (?L2 @ ?L1)) \<noteq> mset (map edge_id (?L1 @ ?L1))"
    by (simp add: Edge_def)
  from two commas msets have differ: "edge_id_key (?L2 @ ?L1) \<noteq> edge_id_key (?L1 @ ?L1)"
    by blast
  from two have same: "edge_id_key (?L1 @ ?L2) = edge_id_key (?L2 @ ?L1)"
    by blast
  from two have level: "nonTouching_level [?L1, ?L2] [?L1, ?L2] [] = ([edge_id_key (?L2 @ ?L1)], [?L2 @ ?L1])"
    by blast
  from two have res: "findNonTouching (findAllLoops two_loops [0, 1, 2]) = Inr [(2, [?L2 @ ?L1])]"
    by blast
  have k1: "edge_id_key (?L2 @ ?L1) = ''ab,ba,cc''"
    using key_cab by simp
  have k2: "edge_id_key (?L1 @ ?L1) = ''ab,ab,ba,ba''"
    using key_abab by simp
  show ?thesis
    using two_loops_cycles disj res level same differ msets k1 k2 by simp
qed

text \<open>For the same two loops the map is the single level 2.\<close>

theorem C6_levels_contiguous_from_two_and_nonempty_witness:
  "findNonTouching [[Edge ''g'' ''a'' ''b'', Edge ''h'' ''b'' ''a''], [Edge ''k'' ''c'' ''c'']]
     = Inr [(2, [[Edge ''k'' ''c'' ''c'', Edge ''g'' ''a'' ''b'', Edge ''h'' ''b'' ''a'']])]
   \<and> (2, [[Edge ''k'' ''c'' ''c'', Edge ''g'' ''a'' ''b'', Edge ''h'' ''b'' ''a'']])
       \<in> set [(2, [[Edge ''k'' ''c'' ''c'', Edge ''g'' ''a'' ''b'', Edge ''h'' ''b'' ''a'']])]
   \<and> (\<exists>m. findNonTouching [[Edge ''g'' ''a'' ''b'', Edge ''h'' ''b'' ''a''], [Edge ''k'' ''c'' ''c'']]
              = Inr m
          \<and> map fst m = [2..<2 + length m]
          \<and> (\<forall>kv \<in> set m. 2 \<le> fst kv \<and> snd kv \<noteq> [])
          \<and> (\<forall>k k'. 2 \<le> k \<and> k \<le> k' \<and> k' \<in> fst ` set m \<longrightarrow> k \<in> fst ` set m))"
proof -
  let ?l1 = "[Edge ''g'' ''a'' ''b'', Edge ''h'' ''b'' ''a'']"
  let ?l2 = "[Edge ''k'' ''c'' ''c'']"
  have "findNonTouching [?l1, ?l2] = Inr [(2, [?l2 @ ?l1])]"
    by (rule findNonTouching_two) (simp_all add: Edge_def)
  with C6_levels_contiguous_from_two_and_nonempty [of "[?l1, ?l2]"]
  show ?thesis by simp
qed

section \<open>The store of the caller is left as it was\<close>

lemma copy_nodes_fold_frame:
  "fold (\<lambda>n (h', allnodes_copy). (h' @ [Node_copy (h' ! n)], allnodes_copy @ [length h']))
        ns (h, cs) = (h1, cs1) \<Longrightarrow>
     take (length h) h1 = h \<and> length h \<le> length h1
     \<and> (\<forall>c \<in> set cs1. c \<in> set cs \<or> length h \<le> c)"
proof (induction ns arbitrary: h cs)
  case Nil
  then show ?case by auto
next
  case (Cons n ns)
  let ?h = "h @ [Node_copy (h ! n)]"
  from Cons.prems have run: "fold (\<lambda>n (h', allnodes_copy). (h' @ [Node_copy (h' ! n)], allnodes_copy @ [length h']))
        ns (?h, cs @ [length h]) = (h1, cs1)"
    by simp
  from Cons.IH [OF run]
  have t: "take (length ?h) h1 = ?h" and l: "length ?h \<le> length h1"
    and c: "\<forall>c \<in> set cs1. c \<in> set (cs @ [length h]) \<or> length ?h \<le> c"
    by simp_all
  have "take (length h) h1 = take (length h) (take (length ?h) h1)"
    by (simp add: min_def)
  also have "\<dots> = h" unfolding t by simp
  finally have "take (length h) h1 = h" .
  moreover from l have "length h \<le> length h1" by simp
  moreover from c have "\<forall>c \<in> set cs1. c \<in> set cs \<or> length h \<le> c" by auto
  ultimately show ?case by blast
qed

lemma copy_nodes_frame:
  "copy_nodes h originalNodes = (h1, allnodes_copy) \<Longrightarrow>
     take (length h) h1 = h \<and> (\<forall>c \<in> set allnodes_copy. length h \<le> c)"
  unfolding copy_nodes_def by (drule copy_nodes_fold_frame) simp

lemma subtractNodes_prune_frame:
  "k \<le> n \<Longrightarrow> take k (fst (subtractNodes_prune h n nodesToSubtract)) = take k h"
proof (induction nodesToSubtract arbitrary: h)
  case Nil
  then show ?case by simp
next
  case (Cons nts rest)
  then show ?case
    by (auto split: sum.splits option.splits)
qed

lemma subtractNodes_for_frame:
  "\<forall>n \<in> set ns. k \<le> n \<Longrightarrow>
     take k (fst (subtractNodes_for h nodesToSubtract ns subgraph)) = take k h"
proof (induction ns arbitrary: h subgraph)
  case Nil
  then show ?case by simp
next
  case (Cons n ns)
  then have n: "k \<le> n" and ns: "\<forall>n \<in> set ns. k \<le> n" by simp_all
  show ?case
  proof (cases "Some n \<notin> set nodesToSubtract \<and> length (outgoingEdges (h ! n)) > 0")
    case False
    then show ?thesis using Cons.IH [OF ns] by auto
  next
    case True
    obtain h' r where p: "subtractNodes_prune h n nodesToSubtract = (h', r)"
      by (cases "subtractNodes_prune h n nodesToSubtract")
    from subtractNodes_prune_frame [OF n, of h nodesToSubtract] p
    have h': "take k h' = take k h" by simp
    show ?thesis
    proof (cases r)
      case (Inl err)
      then show ?thesis using True p h' by simp
    next
      case (Inr u)
      then show ?thesis using True p h' Cons.IH [OF ns, of h' "subgraph @ [n]"] by simp
    qed
  qed
qed

lemma subtractNodes_frame:
  "take (length h) (fst (subtractNodes h originalNodes nodesToSubtract)) = h"
proof -
  obtain h1 allnodes_copy where c: "copy_nodes h originalNodes = (h1, allnodes_copy)"
    by (cases "copy_nodes h originalNodes")
  from copy_nodes_frame [OF c]
  have t: "take (length h) h1 = h" and fresh: "\<forall>c \<in> set allnodes_copy. length h \<le> c"
    by simp_all
  from subtractNodes_for_frame [OF fresh, of h1 nodesToSubtract "[]"] t
  show ?thesis by (simp add: subtractNodes_def c)
qed

lemma take_prefix_trans:
  assumes "take (length h) h1 = h" and "take (length h1) h2 = h1"
  shows "take (length h) h2 = h"
proof -
  have "length h = min (length h) (length h1)"
    using arg_cong [OF assms(1), of length] by simp
  then have "length h \<le> length h1" by simp
  then have "take (length h) h2 = take (length h) (take (length h1) h2)"
    by (simp add: min_def)
  also have "\<dots> = h" by (simp only: assms)
  finally show ?thesis .
qed

lemma calculateNumerator_deltas_frame:
  "take (length h) (fst (calculateNumerator_deltas val h nodes paths delta_k)) = h"
proof (induction paths arbitrary: h delta_k)
  case Nil
  then show ?case by simp
next
  case (Cons p ps)
  obtain h' r where s: "subtractNodes h nodes p = (h', r)"
    by (cases "subtractNodes h nodes p")
  from subtractNodes_frame [of h nodes p] s have h': "take (length h) h' = h" by simp
  show ?case
  proof (cases r)
    case (Inl err)
    then show ?thesis using s h' by simp
  next
    case (Inr subgraph)
    show ?thesis
    proof (cases "findNonTouching (findAllLoops h' subgraph)")
      case (Inl err)
      then show ?thesis using s Inr h' by (simp add: Let_def)
    next
      case nt: (Inr nonTouching)
      have "take (length h) (fst (calculateNumerator_deltas val h' nodes ps
              (delta_k @ [calculateDenominator val (findAllLoops h' subgraph) nonTouching]))) = h"
        by (rule take_prefix_trans [OF h' Cons.IH])
      then show ?thesis using s Inr nt by (simp add: Let_def)
    qed
  qed
qed

lemma calculateNumerator_frame:
  "take (length h) (fst (calculateNumerator val h start endn nodes)) = h"
proof (cases "findForwardPaths h (find_node h nodes start) (find_node h nodes endn) nodes [] []")
  case (Inl err)
  then show ?thesis by (simp add: calculateNumerator_def del: findForwardPaths.simps)
next
  case paths: (Inr paths)
  show ?thesis
  proof (cases "getForwardPathsLoopgains val h paths")
    case (Inl err)
    then show ?thesis using paths by (simp add: calculateNumerator_def del: findForwardPaths.simps)
  next
    case gains: (Inr forwardLoopgains)
    obtain h' r where d: "calculateNumerator_deltas val h nodes paths [] = (h', r)"
      by (cases "calculateNumerator_deltas val h nodes paths []")
    from calculateNumerator_deltas_frame [of h val nodes paths "[]"] d
    have "take (length h) h' = h" by simp
    then show ?thesis
      using paths gains d
      by (cases r) (simp_all add: calculateNumerator_def del: findForwardPaths.simps)
  qed
qed

text \<open>
  Claim C9. The residual-subgraph construction and \<open>calculateNumerator\<close> (which runs the
  construction, \<open>findAllLoops\<close>, \<open>findNonTouching\<close> and \<open>calculateDenominator\<close> for every
  forward path) leave every node object that existed before the call as it was, whether
  the call returns or raises: the store afterwards is the store before, followed by the
  copies made. Only copies are written to. \<open>findAllLoops\<close>, \<open>findNonTouching\<close> and
  \<open>calculateDenominator\<close> contain no assignment to a node or an edge and take the store as
  an argument only.
\<close>

theorem C9_caller_store_unchanged:
  "take (length h) (fst (subtractNodes h originalNodes nodesToSubtract)) = h
   \<and> take (length h) (fst (calculateNumerator val h start endn nodes)) = h
   \<and> (\<forall>a < length h. fst (subtractNodes h originalNodes nodesToSubtract) ! a = h ! a
                      \<and> fst (calculateNumerator val h start endn nodes) ! a = h ! a)"
proof -
  have s: "take (length h) (fst (subtractNodes h originalNodes nodesToSubtract)) = h"
    by (rule subtractNodes_frame)
  have c: "take (length h) (fst (calculateNumerator val h start endn nodes)) = h"
    by (rule calculateNumerator_frame)
  have "fst (subtractNodes h originalNodes nodesToSubtract) ! a = h ! a" if "a < length h" for a
    using nth_take [OF that, of "fst (subtractNodes h originalNodes nodesToSubtract)"] s by simp
  moreover
  have "fst (calculateNumerator val h start endn nodes) ! a = h ! a" if "a < length h" for a
    using nth_take [OF that, of "fst (calculateNumerator val h start endn nodes)"] c by simp
  ultimately show ?thesis using s c by blast
qed

text \<open>On the graph with the parallel edges, node X (at address 2) keeps both of its edges
  to P in the caller's store, while its copy in the residual has lost one.\<close>

theorem C9_caller_store_unchanged_witness:
  "(2::nat) < length parallel
   \<and> fst (subtractNodes parallel [0, 1, 2, 3] [Some 0, Some 1, Some 3]) ! 2 = parallel ! 2
   \<and> outgoingEdges (fst (subtractNodes parallel [0, 1, 2, 3] [Some 0, Some 1, Some 3]) ! 2)
       = [Edge ''d'' ''X'' ''P'', (Edge ''e'' ''X'' ''P'')\<lparr>edge_id := ''XP_1''\<rparr>]
   \<and> outgoingEdges (fst (subtractNodes parallel [0, 1, 2, 3] [Some 0, Some 1, Some 3]) ! 6)
       = [Edge ''e'' ''X'' ''P'']
   \<and> fst (calculateNumerator (\<lambda>w. 1 :: int) parallel ''S'' ''E'' [0, 1, 2, 3]) ! 2 = parallel ! 2"
proof -
  have len: "(2::nat) < length parallel"
    by (simp add: parallel_def)
  have x: "outgoingEdges (parallel ! 2)
             = [Edge ''d'' ''X'' ''P'', (Edge ''e'' ''X'' ''P'')\<lparr>edge_id := ''XP_1''\<rparr>]"
    by (simp add: parallel_def)
  have copy: "outgoingEdges (fst (subtractNodes parallel [0, 1, 2, 3] [Some 0, Some 1, Some 3]) ! 6)
                = [Edge ''e'' ''X'' ''P'']"
    unfolding parallel_subtract using len by (simp add: nth_append parallel_def)
  from C9_caller_store_unchanged
         [of parallel "[0, 1, 2, 3]" "[Some 0, Some 1, Some 3]" "\<lambda>w. 1 :: int" "''S''" "''E''" "[0, 1, 2, 3]"]
  have "fst (subtractNodes parallel [0, 1, 2, 3] [Some 0, Some 1, Some 3]) ! 2 = parallel ! 2"
    and "fst (calculateNumerator (\<lambda>w. 1 :: int) parallel ''S'' ''E'' [0, 1, 2, 3]) ! 2 = parallel ! 2"
    using len by blast+
  then show ?thesis using len x copy by simp
qed

section \<open>The sanity check of calculateNumerator\<close>

lemma getForwardPathsLoopgains_length:
  "getForwardPathsLoopgains val h paths = Inr forwardLoopgains \<Longrightarrow>
     length forwardLoopgains = length paths"
  by (induction paths arbitrary: forwardLoopgains) (auto split: sum.splits)

lemma calculateNumerator_deltas_length:
  "calculateNumerator_deltas val h nodes paths delta_k0 = (h', Inr delta_k) \<Longrightarrow>
     length delta_k = length delta_k0 + length paths"
proof (induction paths arbitrary: h delta_k0)
  case Nil
  then show ?case by simp
next
  case (Cons p ps)
  then show ?case
    by (auto simp: Let_def split: prod.splits sum.splits)
qed

lemma calculateNumerator_never_undefined:
  "snd (calculateNumerator val h start endn nodes) \<noteq> Inr None"
proof (cases "findForwardPaths h (find_node h nodes start) (find_node h nodes endn) nodes [] []")
  case (Inl err)
  then show ?thesis by (simp add: calculateNumerator_def del: findForwardPaths.simps)
next
  case paths: (Inr paths)
  show ?thesis
  proof (cases "getForwardPathsLoopgains val h paths")
    case (Inl err)
    then show ?thesis using paths by (simp add: calculateNumerator_def del: findForwardPaths.simps)
  next
    case gains: (Inr forwardLoopgains)
    obtain h' r where d: "calculateNumerator_deltas val h nodes paths [] = (h', r)"
      by (cases "calculateNumerator_deltas val h nodes paths []")
    show ?thesis
    proof (cases r)
      case (Inl err)
      then show ?thesis
        using paths gains d by (simp add: calculateNumerator_def del: findForwardPaths.simps)
    next
      case (Inr delta_k)
      with d have "length delta_k = length paths"
        using calculateNumerator_deltas_length [of val h nodes paths "[]" h' delta_k] by simp
      moreover have "length forwardLoopgains = length paths"
        using gains by (rule getForwardPathsLoopgains_length)
      ultimately show ?thesis
        using paths gains d Inr by (simp add: calculateNumerator_def del: findForwardPaths.simps)
    qed
  qed
qed

lemma linked_snoc:
  "linked h (p @ [Some a]) \<Longrightarrow> \<exists>e \<in> set (outgoingEdges (h ! a)). endNode e = node_id (h ! b) \<Longrightarrow>
     linked h ((p @ [Some a]) @ [Some b])"
  by (induction h p rule: linked.induct) auto

lemma linked_no_undefined: "linked h p \<Longrightarrow> None \<notin> set p"
  by (induction h p rule: linked.induct) auto

lemma find_edge_to_linked:
  "\<exists>e \<in> set es. endNode e = node_id (h ! b) \<Longrightarrow> \<exists>e. find_edge_to h es (Some b) = Inr (Some e)"
  by (induction es) auto

lemma extractPathEdges_linked:
  "linked h p \<Longrightarrow> \<exists>pathEdges. extractPathEdges h p = Inr pathEdges \<and> None \<notin> set pathEdges"
proof (induction h p rule: extractPathEdges.induct)
  case (3 h pn nxt rest)
  then obtain a b where ab: "pn = Some a" "nxt = Some b"
      and e: "\<exists>e \<in> set (outgoingEdges (h ! a)). endNode e = node_id (h ! b)"
      and rest: "linked h (nxt # rest)"
    by auto
  from find_edge_to_linked [OF e] obtain pe
    where pe: "find_edge_to h (outgoingEdges (h ! a)) (Some b) = Inr (Some pe)" by blast
  from "3.IH" [OF ab(1) pe [folded ab(2)] rest] obtain pathEdges
    where "extractPathEdges h (nxt # rest) = Inr pathEdges" "None \<notin> set pathEdges" by blast
  then show ?case using ab pe by simp
qed simp_all

lemma calculateLoopGain_undef_defined:
  "None \<notin> set es \<Longrightarrow> \<exists>g. calculateLoopGain_undef val es ex = Inr g"
  by (induction val es ex rule: calculateLoopGain_undef.induct) auto

lemma getForwardPathsLoopgains_linked:
  "\<forall>p \<in> set paths. linked h p \<Longrightarrow> \<exists>gains. getForwardPathsLoopgains val h paths = Inr gains"
proof (induction paths)
  case Nil
  then show ?case by simp
next
  case (Cons p ps)
  from Cons.prems extractPathEdges_linked [of h p] obtain pathEdges
    where pe: "extractPathEdges h p = Inr pathEdges" "None \<notin> set pathEdges" by auto
  from calculateLoopGain_undef_defined [OF pe(2)] obtain g
    where g: "calculateLoopGain_undef val pathEdges 1 = Inr g" by blast
  from Cons obtain gains where "getForwardPathsLoopgains val h ps = Inr gains" by auto
  then show ?case using pe g by simp
qed

lemma findIndex_endNode_defined: "\<exists>r. findIndex_endNode h es (Some t) = Inr r"
  by (induction es) (auto split: sum.splits option.splits)

lemma subtractNodes_prune_defined:
  "None \<notin> set nodesToSubtract \<Longrightarrow> snd (subtractNodes_prune h n nodesToSubtract) = Inr ()"
proof (induction nodesToSubtract arbitrary: h)
  case Nil
  then show ?case by simp
next
  case (Cons nts rest)
  then obtain t where t: "nts = Some t" by (cases nts) auto
  from findIndex_endNode_defined [of h "outgoingEdges (h ! n)" t] obtain r
    where "findIndex_endNode h (outgoingEdges (h ! n)) (Some t) = Inr r" by blast
  then show ?case using Cons t by (cases r) auto
qed

lemma subtractNodes_for_defined:
  "None \<notin> set nodesToSubtract \<Longrightarrow>
     \<exists>sub. snd (subtractNodes_for h nodesToSubtract ns subgraph) = Inr sub"
proof (induction ns arbitrary: h subgraph)
  case Nil
  then show ?case by simp
next
  case (Cons n ns)
  obtain h' r where p: "subtractNodes_prune h n nodesToSubtract = (h', r)"
    by (cases "subtractNodes_prune h n nodesToSubtract")
  with subtractNodes_prune_defined [OF Cons.prems, of h n] have "r = Inr ()" by simp
  then show ?case using p Cons by auto
qed

lemma subtractNodes_defined:
  "None \<notin> set nodesToSubtract \<Longrightarrow>
     \<exists>sub. snd (subtractNodes h originalNodes nodesToSubtract) = Inr sub"
  by (auto simp: subtractNodes_def split: prod.splits intro: subtractNodes_for_defined)

lemma findNonTouching_defined: "\<exists>m. findNonTouching allLoops = Inr m"
proof -
  let ?st = "\<lparr>nonTouchingLoops = Map_set [] 1 allLoops, existingGains = []\<rparr>"
  have "levels_ok 2 (nonTouchingLoops ?st)"
    by (simp add: levels_ok_def numeral_2_eq_2)
  then obtain st' where "findNonTouching_for allLoops 2 ?st = Inr st'"
    using findNonTouching_for_levels [of 2 ?st allLoops] by auto
  then show ?thesis unfolding findNonTouching_def by simp
qed

lemma calculateNumerator_deltas_defined:
  "\<forall>p \<in> set paths. None \<notin> set p \<Longrightarrow>
     \<exists>deltas. snd (calculateNumerator_deltas val h nodes paths delta_k) = Inr deltas"
proof (induction paths arbitrary: h delta_k)
  case Nil
  then show ?case by simp
next
  case (Cons p ps)
  then have p: "None \<notin> set p" and ps: "\<forall>p \<in> set ps. None \<notin> set p" by simp_all
  obtain h' r where s: "subtractNodes h nodes p = (h', r)"
    by (cases "subtractNodes h nodes p")
  with subtractNodes_defined [OF p, of h nodes] obtain sub where r: "r = Inr sub" by auto
  obtain m where m: "findNonTouching (findAllLoops h' sub) = Inr m"
    using findNonTouching_defined by blast
  from Cons.IH [OF ps] show ?case using s r m by (simp add: Let_def)
qed

lemma findForwardPaths_linked:
  "resolves h nodes \<Longrightarrow> start \<in> Some ` set nodes \<Longrightarrow> linked h (currPath @ [start]) \<Longrightarrow>
     \<forall>p \<in> set paths. linked h p \<Longrightarrow>
     \<exists>paths'. findForwardPaths h start endn nodes paths currPath = Inr paths'
              \<and> (\<forall>p \<in> set paths'. linked h p)"
  "resolves h nodes \<Longrightarrow>
     \<exists>s cp. currPath' = cp @ [Some s] \<and> s \<in> set nodes \<and> set es \<subseteq> set (outgoingEdges (h ! s)) \<Longrightarrow>
     linked h currPath' \<Longrightarrow> \<forall>p \<in> set paths. linked h p \<Longrightarrow>
     \<exists>paths'. findForwardPaths_for h currPath' endn nodes es paths = Inr paths'
              \<and> (\<forall>p \<in> set paths'. linked h p)"
proof (induction h start endn nodes paths currPath and h currPath' endn nodes es paths
       rule: findForwardPaths_findForwardPaths_for.induct)
  case (1 h start endn nodes paths currPath)
  from "1.prems"(2) obtain s where s: "start = Some s" "s \<in> set nodes" by auto
  show ?case
  proof (cases "start = endn \<or> start \<in> set currPath \<or> length (outgoingEdges (h ! s)) < 1")
    case True
    then show ?thesis using "1.prems" s by auto
  next
    case False
    then have c: "start \<noteq> endn" "start \<notin> set currPath" "\<not> length (outgoingEdges (h ! s)) < 1"
      by simp_all
    have "\<exists>paths'. findForwardPaths_for h (currPath @ [start]) endn nodes (outgoingEdges (h ! s)) paths
                      = Inr paths' \<and> (\<forall>p \<in> set paths'. linked h p)"
    proof (rule "1.IH" [OF c(1) c(2) s(1) c(3) "1.prems"(1) _ "1.prems"(3) "1.prems"(4)])
      show "\<exists>s' cp. currPath @ [start] = cp @ [Some s'] \<and> s' \<in> set nodes
                \<and> set (outgoingEdges (h ! s)) \<subseteq> set (outgoingEdges (h ! s'))"
        using s by auto
    qed
    then show ?thesis using c s by simp
  qed
next
  case (2 h currPath endn nodes paths)
  then show ?case by simp
next
  case (3 h currPath endn nodes e es paths)
  from "3.prems"(2) obtain s cp where cp: "currPath = cp @ [Some s]" and s: "s \<in> set nodes"
      and sub: "set (e # es) \<subseteq> set (outgoingEdges (h ! s))"
    by blast
  from sub have e: "e \<in> set (outgoingEdges (h ! s))" by simp
  with "3.prems"(1) s obtain b where b: "find_node h nodes (endNode e) = Some b"
    unfolding resolves_def by blast
  then have bn: "b \<in> set nodes" and bid: "node_id (h ! b) = endNode e"
    using find_node_SomeD by blast+
  have "linked h ((cp @ [Some s]) @ [Some b])"
  proof (rule linked_snoc)
    show "linked h (cp @ [Some s])" using "3.prems"(3) cp by simp
    show "\<exists>e \<in> set (outgoingEdges (h ! s)). endNode e = node_id (h ! b)"
      using e bid by auto
  qed
  then have l: "linked h (currPath @ [find_node h nodes (endNode e)])"
    using cp b by simp
  have "find_node h nodes (endNode e) \<in> Some ` set nodes"
    using b bn by simp
  from "3.IH"(1) [OF "3.prems"(1) this l "3.prems"(4)] obtain paths1
    where p1: "findForwardPaths h (find_node h nodes (endNode e)) endn nodes paths currPath = Inr paths1"
      and l1: "\<forall>p \<in> set paths1. linked h p"
    by blast
  have "\<exists>s cp. currPath = cp @ [Some s] \<and> s \<in> set nodes \<and> set es \<subseteq> set (outgoingEdges (h ! s))"
    using cp s sub by auto
  from "3.IH"(2) [OF p1 "3.prems"(1) this "3.prems"(3) l1]
  show ?case using p1 by (simp del: findForwardPaths.simps)
qed
lemma calculateNumerator_defined:
  assumes "resolves h nodes" and "find_node h nodes start \<noteq> None"
  shows "\<exists>numer. snd (calculateNumerator val h start endn nodes) = Inr (Some numer)"
proof -
  from assms(2) obtain s where s: "find_node h nodes start = Some s" by auto
  then have "find_node h nodes start \<in> Some ` set nodes"
    using find_node_SomeD by fastforce
  moreover have "linked h ([] @ [find_node h nodes start])"
    using s by simp
  ultimately obtain paths
    where paths: "findForwardPaths h (find_node h nodes start) (find_node h nodes endn) nodes [] [] = Inr paths"
      and l: "\<forall>p \<in> set paths. linked h p"
    using findForwardPaths_linked(1) [OF assms(1), of "find_node h nodes start" "[]" "[]" "find_node h nodes endn"]
    by auto
  from getForwardPathsLoopgains_linked [OF l] obtain gains
    where gains: "getForwardPathsLoopgains val h paths = Inr gains" by blast
  from l have "\<forall>p \<in> set paths. None \<notin> set p"
    using linked_no_undefined by blast
  from calculateNumerator_deltas_defined [OF this] obtain deltas
    where "snd (calculateNumerator_deltas val h nodes paths []) = Inr deltas" by blast
  then obtain h' where d: "calculateNumerator_deltas val h nodes paths [] = (h', Inr deltas)"
    by (cases "calculateNumerator_deltas val h nodes paths []") auto
  from calculateNumerator_deltas_length [OF d] getForwardPathsLoopgains_length [OF gains]
  have "length gains = length deltas" by simp
  then show ?thesis
    using paths gains d by (simp add: calculateNumerator_def del: findForwardPaths.simps)
qed

text \<open>
  Claim C8 as stated fails: not every input yields a numerator. No operation checks that
  the start id names a node; on the three-node chain, all of whose edge destinations
  resolve, a start id that is not in the graph makes the path enumeration read
  \<^verbatim>\<open>outgoingEdges\<close> of \<^verbatim>\<open>undefined\<close>, and the call ends in a TypeError.
\<close>

theorem C8_no_numerator_counterexample:
  "snd (calculateNumerator (\<lambda>w. 1 :: int) (chain [Edge ''b'' ''2'' ''3'', Edge ''f'' ''2'' ''2''])
         ''9'' ''3'' [0, 1, 2]) = Inl TypeError"
  by (simp add: chain_def find_node_def Edge_def calculateNumerator_def)

text \<open>
  Claim C8, amended. \<open>calculateNumerator\<close> returns \<^verbatim>\<open>undefined\<close> only when the number of
  path gains differs from the number of cofactors, and that never happens: the call never
  returns \<^verbatim>\<open>undefined\<close>. For every graph in which the start id and all edge destinations
  resolve to nodes of the graph, it returns a symbolic numerator.
\<close>

theorem C8_sanity_check_never_fires:
  "snd (calculateNumerator val h start endn nodes) \<noteq> Inr None
   \<and> (resolves h nodes \<and> find_node h nodes start \<noteq> None
        \<longrightarrow> (\<exists>numer. snd (calculateNumerator val h start endn nodes) = Inr (Some numer)))"
  using calculateNumerator_never_undefined calculateNumerator_defined by blast

text \<open>The graph with the parallel edges is one in which everything resolves.\<close>

theorem C8_sanity_check_never_fires_witness:
  "resolves parallel [0, 1, 2, 3] \<and> find_node parallel [0, 1, 2, 3] ''S'' \<noteq> None
   \<and> snd (calculateNumerator (\<lambda>w. if w = ''e'' then 3 else (2::int)) parallel ''S'' ''E'' [0, 1, 2, 3])
       \<noteq> Inr None
   \<and> (\<exists>numer. snd (calculateNumerator (\<lambda>w. if w = ''e'' then 3 else (2::int)) parallel
                       ''S'' ''E'' [0, 1, 2, 3]) = Inr (Some numer))"
proof -
  have r: "resolves parallel [0, 1, 2, 3]"
    by (simp add: resolves_def parallel_def find_node_def Edge_def)
  have s: "find_node parallel [0, 1, 2, 3] ''S'' \<noteq> None"
    by (simp add: parallel_def find_node_def)
  from C8_sanity_check_never_fires
         [of "\<lambda>w. if w = ''e'' then 3 else (2::int)" parallel "''S''" "''E''" "[0, 1, 2, 3]"] r s
  show ?thesis by blast
qed

end
